theory Spec2Isabelle
  imports Main "HOL-Library.Word" "HOL-Library.List_Lexorder"
begin

section \<open>Bytes and exceptions\<close>

text \<open>
  A Python \<open>bytes\<close> value is a list of 8-bit words. The order on \<open>bytes\<close> that
  \<open>_find\<close> uses (\<open>pid < target\<close>) is the unsigned lexicographic order, a proper
  prefix being smaller: the order of lists over the unsigned order of words.
\<close>

type_synonym byte = "8 word"
type_synonym bytes = "byte list"

text \<open>
  The exception classes that the module can raise. \<open>StructError\<close> is \<open>struct.error\<close>,
  \<open>LibraryError\<close> an exception class of the identifier library that is none of the
  others.
\<close>

datatype exn = ValueError | KeyError | IndexError | TypeError | StructError
  | ZeroDivisionError | OSError | LibraryError

section \<open>The identifier library (\<open>swh.model.identifiers\<close>)\<close>

text \<open>
  \<open>pid.py\<close> imports \<open>parse_persistent_identifier\<close> and \<open>PersistentId\<close> from another
  package. They are parameters of the model. A call of the library either returns or
  raises an exception, of any class.
\<close>

text \<open>The attributes of a parsed identifier that \<open>str_to_bytes\<close> reads.\<close>

record PersistentId =
  scheme_version :: int
  object_type :: string
  object_id :: string

text \<open>
  \<open>PersistentId_str L t d\<close> stands for \<open>str(PersistentId(object_type=t, object_id=d))\<close>,
  the only way \<open>bytes_to_str\<close> uses the class.
\<close>

record identifiers =
  parse_persistent_identifier :: "string \<Rightarrow> exn + PersistentId"
  PersistentId_str :: "string \<Rightarrow> bytes \<Rightarrow> exn + string"

section \<open>Constants and \<open>PidType\<close>\<close>

definition PID_BIN_SIZE :: int where
  "PID_BIN_SIZE = 22"

definition INT_BIN_SIZE :: int where
  "INT_BIN_SIZE = 8"

datatype PidType = content | directory | origin | release | revision | snapshot

fun PidType_value :: "PidType \<Rightarrow> int" where
  "PidType_value content = 1"
| "PidType_value directory = 2"
| "PidType_value origin = 3"
| "PidType_value release = 4"
| "PidType_value revision = 5"
| "PidType_value snapshot = 6"

fun PidType_name :: "PidType \<Rightarrow> string" where
  "PidType_name content = ''content''"
| "PidType_name directory = ''directory''"
| "PidType_name origin = ''origin''"
| "PidType_name release = ''release''"
| "PidType_name revision = ''revision''"
| "PidType_name snapshot = ''snapshot''"

text \<open>\<open>PidType[name]\<close>: lookup by member name, \<open>KeyError\<close> for an unknown name.\<close>

definition PidType_by_name :: "string \<Rightarrow> exn + PidType" where
  "PidType_by_name n =
     (if n = ''content'' then Inr content
      else if n = ''directory'' then Inr directory
      else if n = ''origin'' then Inr origin
      else if n = ''release'' then Inr release
      else if n = ''revision'' then Inr revision
      else if n = ''snapshot'' then Inr snapshot
      else Inl KeyError)"

text \<open>\<open>PidType(v)\<close>: lookup by value, \<open>ValueError\<close> for an unknown value.\<close>

definition PidType_by_value :: "int \<Rightarrow> exn + PidType" where
  "PidType_by_value v =
     (if v = 1 then Inr content
      else if v = 2 then Inr directory
      else if v = 3 then Inr origin
      else if v = 4 then Inr release
      else if v = 5 then Inr revision
      else if v = 6 then Inr snapshot
      else Inl ValueError)"

section \<open>\<open>struct\<close> and \<open>bytes.fromhex\<close>\<close>

text \<open>Format \<open>B\<close>: an unsigned char; \<open>struct.error\<close> outside \<open>0..255\<close>.\<close>

definition pack_B :: "int \<Rightarrow> exn + byte" where
  "pack_B v = (if 0 \<le> v \<and> v \<le> 255 then Inr (word_of_int v) else Inl StructError)"

text \<open>Format \<open>20s\<close>: the argument cut to 20 bytes, or filled up with zero bytes.\<close>

definition pack_20s :: "bytes \<Rightarrow> bytes" where
  "pack_20s d = take 20 d @ replicate (20 - length d) 0"

text \<open>\<open>struct.pack(PID_BIN_FMT, version, type, digest)\<close> with \<open>PID_BIN_FMT = 'BB20s'\<close>.\<close>

definition pack_PID :: "int \<Rightarrow> int \<Rightarrow> bytes \<Rightarrow> exn + bytes" where
  "pack_PID version type digest =
     (case pack_B version of
        Inl e \<Rightarrow> Inl e
      | Inr v \<Rightarrow>
          (case pack_B type of
             Inl e \<Rightarrow> Inl e
           | Inr t \<Rightarrow> Inr (v # t # pack_20s digest)))"

text \<open>\<open>struct.unpack(PID_BIN_FMT, bytes)\<close>: \<open>struct.error\<close> unless there are 22 bytes.\<close>

definition unpack_PID :: "bytes \<Rightarrow> exn + (int \<times> int \<times> bytes)" where
  "unpack_PID bs =
     (case bs of
        v # t # d \<Rightarrow> (if length d = 20 then Inr (uint v, uint t, d) else Inl StructError)
      | _ \<Rightarrow> Inl StructError)"

text \<open>
  \<open>struct.pack(INT_BIN_FMT, n)\<close> with \<open>INT_BIN_FMT = '>q'\<close>: eight bytes, big endian,
  two's complement; \<open>struct.error\<close> outside the signed 64-bit range.
\<close>

definition pack_q :: "int \<Rightarrow> exn + bytes" where
  "pack_q n =
     (if - (2 ^ 63) \<le> n \<and> n < 2 ^ 63
      then Inr (map (\<lambda>i. word_of_int (n div 256 ^ i)) [7, 6, 5, 4, 3, 2, 1, 0 :: nat])
      else Inl StructError)"

fun be_value :: "int \<Rightarrow> bytes \<Rightarrow> int" where
  "be_value acc [] = acc"
| "be_value acc (b # bs) = be_value (acc * 256 + uint b) bs"

text \<open>\<open>struct.unpack(INT_BIN_FMT, bs)[0]\<close>: \<open>struct.error\<close> unless there are 8 bytes.\<close>

definition unpack_q :: "bytes \<Rightarrow> exn + int" where
  "unpack_q bs =
     (if length bs = 8
      then (let u = be_value 0 bs in Inr (if u < 2 ^ 63 then u else u - 2 ^ 64))
      else Inl StructError)"

definition hex_digit :: "char \<Rightarrow> nat option" where
  "hex_digit c = map_of (zip ''0123456789abcdefABCDEF''
     [0, 1, 2, 3, 4, 5, 6, 7, 8, 9, 10, 11, 12, 13, 14, 15, 10, 11, 12, 13, 14, 15]) c"

definition is_space :: "char \<Rightarrow> bool" where
  "is_space c = (c \<in> set [CHR '' '', CHR 0x09, CHR 0x0A, CHR 0x0B, CHR 0x0C, CHR 0x0D])"

text \<open>
  \<open>bytes.fromhex(s)\<close>: two hexadecimal digits a byte, either case, white space skipped
  between bytes, \<open>ValueError\<close> for anything else.
\<close>

fun bytes_fromhex :: "string \<Rightarrow> exn + bytes" where
  "bytes_fromhex [] = Inr []"
| "bytes_fromhex [c] = (if is_space c then Inr [] else Inl ValueError)"
| "bytes_fromhex (c # d # s) =
     (if is_space c then bytes_fromhex (d # s)
      else (case (hex_digit c, hex_digit d) of
              (Some h, Some l) \<Rightarrow>
                (case bytes_fromhex s of
                   Inl e \<Rightarrow> Inl e
                 | Inr bs \<Rightarrow> Inr (of_nat (16 * h + l) # bs))
            | _ \<Rightarrow> Inl ValueError))"

section \<open>The PID codec\<close>

definition str_to_bytes :: "identifiers \<Rightarrow> string \<Rightarrow> exn + bytes" where
  "str_to_bytes L pid =
     (case parse_persistent_identifier L pid of
        Inl e \<Rightarrow> Inl e
      | Inr p \<Rightarrow>
          (case PidType_by_name (object_type p) of
             Inl e \<Rightarrow> Inl e
           | Inr t \<Rightarrow>
               (case bytes_fromhex (object_id p) of
                  Inl e \<Rightarrow> Inl e
                | Inr d \<Rightarrow> pack_PID (scheme_version p) (PidType_value t) d)))"

definition bytes_to_str :: "identifiers \<Rightarrow> bytes \<Rightarrow> exn + string" where
  "bytes_to_str L bs =
     (case unpack_PID bs of
        Inl e \<Rightarrow> Inl e
      | Inr (version, type, bin_digest) \<Rightarrow>
          (case PidType_by_value type of
             Inl e \<Rightarrow> Inl e
           | Inr t \<Rightarrow>
               (case PersistentId_str L (PidType_name t) bin_digest of
                  Inl e \<Rightarrow> Inl e
                | Inr s \<Rightarrow> Inr s)))"

section \<open>The mapped file\<close>

text \<open>
  The mapping \<open>mm\<close> is a byte sequence of fixed length. A slice \<open>mm[start:stop]\<close>
  clips its bounds as every Python sequence does: a negative bound counts from the end,
  and a bound beyond either end is moved to that end.
\<close>

definition adjust_index :: "int \<Rightarrow> int \<Rightarrow> int" where
  "adjust_index n i = (if i < 0 then max 0 (i + n) else min i n)"

definition mm_getslice :: "bytes \<Rightarrow> int \<Rightarrow> int \<Rightarrow> bytes" where
  "mm_getslice m start stop =
     (let n = int (length m); a = adjust_index n start; b = adjust_index n stop
      in take (nat (b - a)) (drop (nat a) m))"

text \<open>
  A slice assignment \<open>mm[start:stop] = v\<close> cannot resize the mapping: it raises
  \<open>IndexError\<close> unless \<open>v\<close> has exactly the length of the clipped slice.
\<close>

definition mm_setslice :: "bytes \<Rightarrow> int \<Rightarrow> int \<Rightarrow> bytes \<Rightarrow> exn + bytes" where
  "mm_setslice m start stop v =
     (let n = int (length m); a = adjust_index n start; b = adjust_index n stop
      in if int (length v) \<noteq> max 0 (b - a) then Inl IndexError
         else Inr (take (nat a) m @ v @ drop (nat a + length v) m))"

record OnDiskMap =
  record_size :: int
  size_map :: int
  length_map :: int
  mm :: bytes

text \<open>\<open>os.truncate(fd, n)\<close>: cut, or filled up with zero bytes; \<open>OSError\<close> for \<open>n < 0\<close>.\<close>

definition os_truncate :: "bytes \<Rightarrow> int \<Rightarrow> exn + bytes" where
  "os_truncate c n =
     (if n < 0 then Inl OSError
      else Inr (take (nat n) c @ replicate (nat n - length c) 0))"

text \<open>
  \<open>_OnDiskMap.__init__\<close>. The file at \<open>fname\<close> is its content, \<open>None\<close> when there is
  no such file. \<open>os.open\<close> without \<open>O_CREAT\<close> raises \<open>OSError\<close> on a missing file,
  \<open>divmod\<close> raises \<open>ZeroDivisionError\<close> on a zero record size, and \<open>mmap.mmap\<close>
  raises \<open>ValueError\<close> on an empty file.
\<close>

definition OnDiskMap_init ::
  "int \<Rightarrow> bytes option \<Rightarrow> string \<Rightarrow> int option \<Rightarrow> exn + OnDiskMap" where
  "OnDiskMap_init rsize file mode len =
     (if mode \<notin> set [''rb'', ''wb'', ''rb+''] then Inl ValueError
      else
        (case (if mode = ''wb'' then Some (case file of None \<Rightarrow> [] | Some c \<Rightarrow> c) else file) of
           None \<Rightarrow> Inl OSError
         | Some c \<Rightarrow>
             (case (if mode = ''wb''
                    then (case len of
                            None \<Rightarrow> Inl ValueError
                          | Some l \<Rightarrow> os_truncate c (l * rsize))
                    else Inr c) of
                Inl e \<Rightarrow> Inl e
              | Inr c' \<Rightarrow>
                  (if rsize = 0 then Inl ZeroDivisionError
                   else
                     (let sz = int (length c'); l = sz div rsize; remainder = sz mod rsize
                      in if remainder \<noteq> 0 then Inl ValueError
                         else if sz = 0 then Inl ValueError
                         else Inr \<lparr>record_size = rsize, size_map = sz,
                                   length_map = l, mm = c'\<rparr>)))))"

definition OnDiskMap_len :: "OnDiskMap \<Rightarrow> int" where
  "OnDiskMap_len m = length_map m"

section \<open>The forward index \<open>PidToIntMap\<close>\<close>

definition PidToIntMap_RECORD_SIZE :: int where
  "PidToIntMap_RECORD_SIZE = PID_BIN_SIZE + INT_BIN_SIZE"

definition PidToIntMap_init :: "bytes option \<Rightarrow> string \<Rightarrow> int option \<Rightarrow> exn + OnDiskMap" where
  "PidToIntMap_init file mode len = OnDiskMap_init PidToIntMap_RECORD_SIZE file mode len"

definition PidToIntMap_get_bin_record :: "OnDiskMap \<Rightarrow> int \<Rightarrow> bytes \<times> bytes" where
  "PidToIntMap_get_bin_record m pos =
     (let rec_pos = pos * PidToIntMap_RECORD_SIZE; int_pos = rec_pos + PID_BIN_SIZE
      in (mm_getslice (mm m) rec_pos int_pos,
          mm_getslice (mm m) int_pos (int_pos + INT_BIN_SIZE)))"

definition PidToIntMap_get_record :: "identifiers \<Rightarrow> OnDiskMap \<Rightarrow> int \<Rightarrow> exn + (string \<times> int)" where
  "PidToIntMap_get_record L m pos =
     (case PidToIntMap_get_bin_record m pos of
        (pid_bytes, int_bytes) \<Rightarrow>
          (case bytes_to_str L pid_bytes of
             Inl e \<Rightarrow> Inl e
           | Inr s \<Rightarrow>
               (case unpack_q int_bytes of
                  Inl e \<Rightarrow> Inl e
                | Inr n \<Rightarrow> Inr (s, n))))"

text \<open>
  \<open>write_record\<close> on a stream \<open>f\<close>, given as the bytes written so far. The key is
  written before the integer is packed, so a failure of the second \<open>write\<close> leaves the
  key in the stream.
\<close>

definition PidToIntMap_write_record ::
  "identifiers \<Rightarrow> bytes \<Rightarrow> string \<Rightarrow> int \<Rightarrow> exn option \<times> bytes" where
  "PidToIntMap_write_record L f pid n =
     (case str_to_bytes L pid of
        Inl e \<Rightarrow> (Some e, f)
      | Inr k \<Rightarrow>
          (case pack_q n of
             Inl e \<Rightarrow> (Some e, f @ k)
           | Inr v \<Rightarrow> (None, f @ k @ v)))"

text \<open>Writing a sequence of records one after the other, stopping at the first failure.\<close>

fun write_records :: "identifiers \<Rightarrow> bytes \<Rightarrow> (string \<times> int) list \<Rightarrow> exn option \<times> bytes" where
  "write_records L f [] = (None, f)"
| "write_records L f ((pid, n) # rs) =
     (case PidToIntMap_write_record L f pid n of
        (Some e, f') \<Rightarrow> (Some e, f')
      | (None, f') \<Rightarrow> write_records L f' rs)"

text \<open>The loop of \<open>_find\<close>, with \<open>lo\<close> and \<open>hi\<close> for its variables \<open>min\<close> and \<open>max\<close>.\<close>

function find_loop :: "OnDiskMap \<Rightarrow> bytes \<Rightarrow> int \<Rightarrow> int \<Rightarrow> exn + (int \<times> int)" where
  "find_loop m target lo hi =
     (if lo \<le> hi
      then (let mid = (lo + hi) div 2
            in (case PidToIntMap_get_bin_record m mid of
                  (pid, n) \<Rightarrow>
                    if pid < target then find_loop m target (mid + 1) hi
                    else if pid > target then find_loop m target lo (mid - 1)
                    else (case unpack_q n of
                            Inl e \<Rightarrow> Inl e
                          | Inr v \<Rightarrow> Inr (v, mid))))
      else Inl KeyError)"
  by pat_completeness auto
termination
  by (relation "measure (\<lambda>(m, target, lo, hi). nat (hi - lo + 1))") auto

text \<open>The successive values of \<open>mid\<close> in that loop: the positions it probes.\<close>

function find_probes :: "OnDiskMap \<Rightarrow> bytes \<Rightarrow> int \<Rightarrow> int \<Rightarrow> int list" where
  "find_probes m target lo hi =
     (if lo \<le> hi
      then (let mid = (lo + hi) div 2
            in (case PidToIntMap_get_bin_record m mid of
                  (pid, n) \<Rightarrow>
                    if pid < target then mid # find_probes m target (mid + 1) hi
                    else if pid > target then mid # find_probes m target lo (mid - 1)
                    else [mid]))
      else [])"
  by pat_completeness auto
termination
  by (relation "measure (\<lambda>(m, target, lo, hi). nat (hi - lo + 1))") auto

text \<open>
  The same loop with its accesses to the mapping made explicit: \<open>mm_read m a b\<close> is
  the slice \<open>self.mm[a:b]\<close> together with the bounds of the bytes it reads,
  \<open>_get_bin_record\<close> takes two such slices, and the loop returns its result with the
  slices read, in order.
\<close>

definition mm_read :: "OnDiskMap \<Rightarrow> int \<Rightarrow> int \<Rightarrow> bytes \<times> (int \<times> int) list" where
  "mm_read m a b = (mm_getslice (mm m) a b, [(a, b)])"

definition PidToIntMap_get_bin_record_traced ::
  "OnDiskMap \<Rightarrow> int \<Rightarrow> (bytes \<times> bytes) \<times> (int \<times> int) list" where
  "PidToIntMap_get_bin_record_traced m pos =
     (let rec_pos = pos * PidToIntMap_RECORD_SIZE; int_pos = rec_pos + PID_BIN_SIZE
      in (case mm_read m rec_pos int_pos of
            (pid, r1) \<Rightarrow>
              (case mm_read m int_pos (int_pos + INT_BIN_SIZE) of
                 (n, r2) \<Rightarrow> ((pid, n), r1 @ r2))))"

function find_traced ::
  "OnDiskMap \<Rightarrow> bytes \<Rightarrow> int \<Rightarrow> int \<Rightarrow> (exn + (int \<times> int)) \<times> (int \<times> int) list" where
  "find_traced m target lo hi =
     (if lo \<le> hi
      then (let mid = (lo + hi) div 2
            in (case PidToIntMap_get_bin_record_traced m mid of
                  ((pid, n), r) \<Rightarrow>
                    if pid < target
                    then (case find_traced m target (mid + 1) hi of
                            (res, rs) \<Rightarrow> (res, r @ rs))
                    else if pid > target
                    then (case find_traced m target lo (mid - 1) of
                            (res, rs) \<Rightarrow> (res, r @ rs))
                    else (case unpack_q n of
                            Inl e \<Rightarrow> (Inl e, r)
                          | Inr v \<Rightarrow> (Inr (v, mid), r))))
      else (Inl KeyError, []))"
  by pat_completeness auto
termination
  by (relation "measure (\<lambda>(m, target, lo, hi). nat (hi - lo + 1))") auto

text \<open>
  \<open>_find\<close> on a \<open>str\<close> argument (the \<open>isinstance\<close> test passes). A \<open>ValueError\<close>
  of \<open>str_to_bytes\<close> is caught and raised again as a \<open>ValueError\<close>; every other
  exception passes through.
\<close>

definition PidToIntMap_find :: "identifiers \<Rightarrow> OnDiskMap \<Rightarrow> string \<Rightarrow> exn + (int \<times> int)" where
  "PidToIntMap_find L m pid_str =
     (case str_to_bytes L pid_str of
        Inl e \<Rightarrow> (if e = ValueError then Inl ValueError else Inl e)
      | Inr target \<Rightarrow> find_loop m target 0 (length_map m - 1))"

definition PidToIntMap_getitem :: "identifiers \<Rightarrow> OnDiskMap \<Rightarrow> string \<Rightarrow> exn + int" where
  "PidToIntMap_getitem L m pid_str =
     (case PidToIntMap_find L m pid_str of
        Inl e \<Rightarrow> Inl e
      | Inr (n, pos) \<Rightarrow> Inr n)"

text \<open>
  \<open>__setitem__\<close> returns the exception raised, if any, and the map as the call leaves
  it: the key is stored before the integer is packed.
\<close>

definition PidToIntMap_setitem ::
  "identifiers \<Rightarrow> OnDiskMap \<Rightarrow> string \<Rightarrow> int \<Rightarrow> exn option \<times> OnDiskMap" where
  "PidToIntMap_setitem L m pid_str n =
     (case PidToIntMap_find L m pid_str of
        Inl e \<Rightarrow> (Some e, m)
      | Inr (old, pos) \<Rightarrow>
          (let rec_pos = pos * PidToIntMap_RECORD_SIZE; int_pos = rec_pos + PID_BIN_SIZE
           in (case str_to_bytes L pid_str of
                 Inl e \<Rightarrow> (Some e, m)
               | Inr k \<Rightarrow>
                   (case mm_setslice (mm m) rec_pos int_pos k of
                      Inl e \<Rightarrow> (Some e, m)
                    | Inr mm1 \<Rightarrow>
                        (case pack_q n of
                           Inl e \<Rightarrow> (Some e, m\<lparr>mm := mm1\<rparr>)
                         | Inr v \<Rightarrow>
                             (case mm_setslice mm1 int_pos (int_pos + INT_BIN_SIZE) v of
                                Inl e \<Rightarrow> (Some e, m\<lparr>mm := mm1\<rparr>)
                              | Inr mm2 \<Rightarrow> (None, m\<lparr>mm := mm2\<rparr>)))))))"

text \<open>
  A generator over the positions \<open>ps\<close>: the elements it yields, and the exception that
  ends it early, if any.
\<close>

fun generate :: "(int \<Rightarrow> exn + 'a) \<Rightarrow> int list \<Rightarrow> 'a list \<times> exn option" where
  "generate f [] = ([], None)"
| "generate f (p # ps) =
     (case f p of
        Inl e \<Rightarrow> ([], Some e)
      | Inr x \<Rightarrow> (case generate f ps of (xs, r) \<Rightarrow> (x # xs, r)))"

definition PidToIntMap_iter ::
  "identifiers \<Rightarrow> OnDiskMap \<Rightarrow> (string \<times> int) list \<times> exn option" where
  "PidToIntMap_iter L m = generate (PidToIntMap_get_record L m) [0 .. length_map m - 1]"

section \<open>The reverse index \<open>IntToPidMap\<close>\<close>

definition IntToPidMap_RECORD_SIZE :: int where
  "IntToPidMap_RECORD_SIZE = PID_BIN_SIZE"

definition IntToPidMap_init :: "bytes option \<Rightarrow> string \<Rightarrow> int option \<Rightarrow> exn + OnDiskMap" where
  "IntToPidMap_init file mode len = OnDiskMap_init IntToPidMap_RECORD_SIZE file mode len"

definition IntToPidMap_get_bin_record :: "OnDiskMap \<Rightarrow> int \<Rightarrow> bytes" where
  "IntToPidMap_get_bin_record m pos =
     (let rec_pos = pos * IntToPidMap_RECORD_SIZE
      in mm_getslice (mm m) rec_pos (rec_pos + IntToPidMap_RECORD_SIZE))"

definition IntToPidMap_write_record :: "identifiers \<Rightarrow> bytes \<Rightarrow> string \<Rightarrow> exn option \<times> bytes" where
  "IntToPidMap_write_record L f pid =
     (case str_to_bytes L pid of
        Inl e \<Rightarrow> (Some e, f)
      | Inr k \<Rightarrow> (None, f @ k))"

definition IntToPidMap_getitem :: "identifiers \<Rightarrow> OnDiskMap \<Rightarrow> int \<Rightarrow> exn + string" where
  "IntToPidMap_getitem L m orig_pos =
     (let pos = (if orig_pos < 0 then OnDiskMap_len m + orig_pos else orig_pos)
      in if \<not> (0 \<le> pos \<and> pos < OnDiskMap_len m) then Inl IndexError
         else bytes_to_str L (IntToPidMap_get_bin_record m pos))"

definition IntToPidMap_setitem ::
  "identifiers \<Rightarrow> OnDiskMap \<Rightarrow> int \<Rightarrow> string \<Rightarrow> exn option \<times> OnDiskMap" where
  "IntToPidMap_setitem L m pos pid =
     (let rec_pos = pos * IntToPidMap_RECORD_SIZE
      in (case str_to_bytes L pid of
            Inl e \<Rightarrow> (Some e, m)
          | Inr k \<Rightarrow>
              (case mm_setslice (mm m) rec_pos (rec_pos + IntToPidMap_RECORD_SIZE) k of
                 Inl e \<Rightarrow> (Some e, m)
               | Inr mm1 \<Rightarrow> (None, m\<lparr>mm := mm1\<rparr>))))"

definition IntToPidMap_iter ::
  "identifiers \<Rightarrow> OnDiskMap \<Rightarrow> (int \<times> string) list \<times> exn option" where
  "IntToPidMap_iter L m =
     generate (\<lambda>pos. case IntToPidMap_getitem L m pos of
                       Inl e \<Rightarrow> Inl e
                     | Inr s \<Rightarrow> Inr (pos, s))
              [0 .. length_map m - 1]"

section \<open>A reference identifier library\<close>

text \<open>
  An instance of the library, for running the model on concrete identifiers: it accepts
  the texts \<open>swh:1:<type>:<40 hexadecimal digits>\<close> and prints them with a lower-case
  digest. A version that is not a decimal number is refused with a \<open>ValueError\<close>,
  everything else with \<open>LibraryError\<close>.
\<close>

fun split_on :: "char \<Rightarrow> string \<Rightarrow> string list" where
  "split_on c [] = [[]]"
| "split_on c (x # xs) =
     (if x = c then [] # split_on c xs
      else (case split_on c xs of
              [] \<Rightarrow> [[x]]
            | w # ws \<Rightarrow> (x # w) # ws))"

definition short_names :: "(string \<times> string) list" where
  "short_names =
     [(''ori'', ''origin''), (''snp'', ''snapshot''), (''rel'', ''release''),
      (''rev'', ''revision''), (''dir'', ''directory''), (''cnt'', ''content'')]"

definition dec_value :: "string \<Rightarrow> int option" where
  "dec_value s =
     (if s \<noteq> [] \<and> list_all (\<lambda>c. c \<in> set ''0123456789'') s
      then Some (foldl (\<lambda>a c. 10 * a + (case hex_digit c of None \<Rightarrow> 0 | Some d \<Rightarrow> int d)) 0 s)
      else None)"

definition hex_of_bytes :: "bytes \<Rightarrow> string" where
  "hex_of_bytes bs =
     concat (map (\<lambda>b. [''0123456789abcdef'' ! (unat b div 16),
                        ''0123456789abcdef'' ! (unat b mod 16)]) bs)"

definition swh_parse :: "string \<Rightarrow> exn + PersistentId" where
  "swh_parse s =
     (case split_on CHR '':'' s of
        [ns, ver, ty, oid] \<Rightarrow>
          (case dec_value ver of
             None \<Rightarrow> Inl ValueError
           | Some v \<Rightarrow>
               (case map_of short_names ty of
                  None \<Rightarrow> Inl LibraryError
                | Some name \<Rightarrow>
                    (if ns \<noteq> ''swh'' \<or> v \<noteq> 1 \<or> length oid \<noteq> 40 then Inl LibraryError
                     else (case bytes_fromhex oid of
                             Inl e \<Rightarrow> Inl LibraryError
                           | Inr d \<Rightarrow>
                               Inr \<lparr>scheme_version = v, object_type = name, object_id = oid\<rparr>))))
      | _ \<Rightarrow> Inl LibraryError)"

definition swh_str :: "string \<Rightarrow> bytes \<Rightarrow> exn + string" where
  "swh_str name digest =
     (case map_of (map (\<lambda>(s, n). (n, s)) short_names) name of
        None \<Rightarrow> Inl LibraryError
      | Some short \<Rightarrow>
          (if length digest \<noteq> 20 then Inl LibraryError
           else Inr (''swh:1:'' @ short @ '':'' @ hex_of_bytes digest)))"

definition swh_identifiers :: identifiers where
  "swh_identifiers =
     \<lparr>parse_persistent_identifier = swh_parse, PersistentId_str = swh_str\<rparr>"

definition pid_A :: string where
  "pid_A = ''swh:1:cnt:94a9ed024d3859793618152ea559a168bbcbb5e2''"

definition pid_B :: string where
  "pid_B = ''swh:1:dir:d198bc9d7a6bcf6db04f476d29314f157507d505''"

definition pid_C :: string where
  "pid_C = ''swh:1:rev:309cf2674ee7a0749978cf8265ab91a60aea0f7d''"

definition key_A :: bytes where
  "key_A = [1, 1, 0x94, 0xa9, 0xed, 0x02, 0x4d, 0x38, 0x59, 0x79, 0x36, 0x18, 0x15, 0x2e,
            0xa5, 0x59, 0xa1, 0x68, 0xbb, 0xcb, 0xb5, 0xe2]"

section \<open>Valid identifiers\<close>

text \<open>
  A textual identifier is in canonical form for a library when the library parses it,
  its digest has 20 bytes, and the library prints that very text for its object type
  and binary digest.
\<close>

definition canonical :: "identifiers \<Rightarrow> string \<Rightarrow> bool" where
  "canonical L x =
     (case parse_persistent_identifier L x of
        Inl e \<Rightarrow> False
      | Inr p \<Rightarrow>
          (case bytes_fromhex (object_id p) of
             Inl e \<Rightarrow> False
           | Inr d \<Rightarrow> length d = 20 \<and> PersistentId_str L (object_type p) d = Inr x))"

section \<open>The invariant of an open map\<close>

text \<open>What \<open>__init__\<close> establishes, and every operation keeps.\<close>

definition OnDiskMap_inv :: "int \<Rightarrow> OnDiskMap \<Rightarrow> bool" where
  "OnDiskMap_inv rsize m =
     (record_size m = rsize \<and> size_map m = int (length (mm m)) \<and>
      size_map m = length_map m * rsize \<and> mm m \<noteq> [])"

section \<open>Sample data\<close>

definition key_B :: bytes where
  "key_B = [1, 2, 0xd1, 0x98, 0xbc, 0x9d, 0x7a, 0x6b, 0xcf, 0x6d, 0xb0, 0x4f, 0x47, 0x6d,
            0x29, 0x31, 0x4f, 0x15, 0x75, 0x07, 0xd5, 0x05]"

definition key_C :: bytes where
  "key_C = [1, 5, 0x30, 0x9c, 0xf2, 0x67, 0x4e, 0xe7, 0xa0, 0x74, 0x99, 0x78, 0xcf, 0x82,
            0x65, 0xab, 0x91, 0xa6, 0x0a, 0xea, 0x0f, 0x7d]"

definition pid_D :: string where
  "pid_D = ''swh:1:rel:22ece559cc7cc2364edc5e5593d63ae8bd229f9f''"

definition key_D :: bytes where
  "key_D = [1, 4, 0x22, 0xec, 0xe5, 0x59, 0xcc, 0x7c, 0xc2, 0x36, 0x4e, 0xdc, 0x5e, 0x55,
            0x93, 0xd6, 0x3a, 0xe8, 0xbd, 0x22, 0x9f, 0x9f]"

definition sample_recs :: "(string \<times> int) list" where
  "sample_recs = [(pid_A, 0), (pid_B, 1), (pid_C, 2)]"

definition sample_file :: bytes where
  "sample_file = key_A @ [0, 0, 0, 0, 0, 0, 0, 0] @ key_B @ [0, 0, 0, 0, 0, 0, 0, 1] @
                 key_C @ [0, 0, 0, 0, 0, 0, 0, 2]"

definition sample_map :: OnDiskMap where
  "sample_map = \<lparr>record_size = 30, size_map = 90, length_map = 3, mm = sample_file\<rparr>"

definition rev_file :: bytes where
  "rev_file = key_A @ key_B @ key_C"

definition rev_map :: OnDiskMap where
  "rev_map = \<lparr>record_size = 22, size_map = 66, length_map = 3, mm = rev_file\<rparr>"

definition fresh_map :: OnDiskMap where
  "fresh_map = \<lparr>record_size = 30, size_map = 30, length_map = 1, mm = replicate 30 0\<rparr>"

text \<open>The sample file after the integer stored for \<open>pid_B\<close> is replaced by 7.\<close>

definition updated_file :: bytes where
  "updated_file = key_A @ [0, 0, 0, 0, 0, 0, 0, 0] @ key_B @ [0, 0, 0, 0, 0, 0, 0, 7] @
                  key_C @ [0, 0, 0, 0, 0, 0, 0, 2]"

definition updated_map :: OnDiskMap where
  "updated_map = \<lparr>record_size = 30, size_map = 90, length_map = 3, mm = updated_file\<rparr>"

section \<open>Auxiliary facts\<close>

declare find_loop.simps [simp del] find_probes.simps [simp del] find_traced.simps [simp del]

subsection \<open>Packing and unpacking\<close>

lemma uint_byte: "uint (word_of_int k :: byte) = k mod 256"
  by (simp add: uint_word_of_int)

lemma digits: "(n::int) mod (256 ^ k * 256) = (n div 256 ^ k mod 256) * 256 ^ k + n mod 256 ^ k"
  using zmod_zmult2_eq [of 256 n "256 ^ k"] by (simp add: mult.commute)

lemma be_pack: "be_value 0 (map (\<lambda>i. word_of_int (n div 256 ^ i)) [7, 6, 5, 4, 3, 2, 1, 0 :: nat]) = n mod 2 ^ 64"
proof -
  have "n mod 2 ^ 64 = n mod (256 ^ 7 * 256)" by simp
  also have "\<dots> = (n div 256 ^ 7 mod 256) * 256 ^ 7 + n mod (256 ^ 6 * 256)" by (simp only: digits [of n 7]) simp
  also have "n mod (256 ^ 6 * 256) = (n div 256 ^ 6 mod 256) * 256 ^ 6 + n mod (256 ^ 5 * 256)" by (simp only: digits [of n 6]) simp
  also have "n mod (256 ^ 5 * 256) = (n div 256 ^ 5 mod 256) * 256 ^ 5 + n mod (256 ^ 4 * 256)" by (simp only: digits [of n 5]) simp
  also have "n mod (256 ^ 4 * 256) = (n div 256 ^ 4 mod 256) * 256 ^ 4 + n mod (256 ^ 3 * 256)" by (simp only: digits [of n 4]) simp
  also have "n mod (256 ^ 3 * 256) = (n div 256 ^ 3 mod 256) * 256 ^ 3 + n mod (256 ^ 2 * 256)" by (simp only: digits [of n 3]) simp
  also have "n mod (256 ^ 2 * 256) = (n div 256 ^ 2 mod 256) * 256 ^ 2 + n mod (256 ^ 1 * 256)" by (simp only: digits [of n 2]) simp
  also have "n mod (256 ^ 1 * 256) = (n div 256 ^ 1 mod 256) * 256 ^ 1 + n mod (256 ^ 0 * 256)" by (simp only: digits [of n 1]) simp
  finally show ?thesis by (simp add: uint_byte)
qed

lemma unpack_pack_q: "pack_q n = Inr bs \<Longrightarrow> unpack_q bs = Inr n"
proof -
  assume a: "pack_q n = Inr bs"
  then have r: "- (2 ^ 63) \<le> n" "n < 2 ^ 63"
    and bs: "bs = map (\<lambda>i. word_of_int (n div 256 ^ i)) [7, 6, 5, 4, 3, 2, 1, 0 :: nat]"
    by (auto simp: pack_q_def split: if_splits)
  have v: "be_value 0 bs = n mod 2 ^ 64" unfolding bs by (rule be_pack)
  have l: "length bs = 8" by (simp add: bs)
  show ?thesis
  proof (cases "0 \<le> n")
    case True
    then have "n mod 2 ^ 64 = n" using r by simp
    then show ?thesis using r l v by (simp add: unpack_q_def)
  next
    case False
    have "(n + 2 ^ 64) mod 2 ^ 64 = n + 2 ^ 64" using r False by (intro mod_pos_pos_trivial) auto
    then have "n mod 2 ^ 64 = n + 2 ^ 64" by simp
    then show ?thesis using r l v False by (simp add: unpack_q_def)
  qed
qed

lemma pack_q_length: "pack_q n = Inr bs \<Longrightarrow> length bs = 8"
  by (auto simp: pack_q_def split: if_splits)

lemma PidType_by_value_value: "PidType_by_value (PidType_value t) = Inr t"
  by (cases t) (simp_all add: PidType_by_value_def)

lemma PidType_by_name_name: "PidType_by_name n = Inr t \<Longrightarrow> PidType_name t = n"
  by (auto simp: PidType_by_name_def split: if_splits)

lemma PidType_value_range: "1 \<le> PidType_value t \<and> PidType_value t \<le> 6"
  by (cases t) simp_all

lemma pack_PID_length: "pack_PID v t d = Inr bs \<Longrightarrow> length bs = 22"
  by (auto simp: pack_PID_def pack_20s_def split: sum.splits)

lemma str_to_bytes_length: "str_to_bytes L x = Inr k \<Longrightarrow> length k = 22"
  by (auto simp: str_to_bytes_def split: sum.splits dest: pack_PID_length)

lemma uint_pack_B: "pack_B v = Inr b \<Longrightarrow> uint b = v"
  by (auto simp: pack_B_def uint_word_of_int split: if_splits)

lemma unpack_pack_PID:
  "pack_PID v t d = Inr bs \<Longrightarrow> unpack_PID bs = Inr (v, t, pack_20s d)"
  by (auto simp: pack_PID_def unpack_PID_def pack_20s_def uint_pack_B split: sum.splits)

lemma pack_20s_id: "length d = 20 \<Longrightarrow> pack_20s d = d"
  by (simp add: pack_20s_def)

lemma bytes_to_str_version: "bytes_to_str L (v # t # d) = bytes_to_str L (v' # t # d)"
  by (simp add: bytes_to_str_def unpack_PID_def)

subsection \<open>Slices of the mapping\<close>

lemma adjust_index_range: "0 \<le> n \<Longrightarrow> 0 \<le> adjust_index n i \<and> adjust_index n i \<le> n"
  by (simp add: adjust_index_def)

lemma mm_getslice_inside:
  "0 \<le> a \<Longrightarrow> a \<le> b \<Longrightarrow> b \<le> int (length m) \<Longrightarrow>
   mm_getslice m a b = take (nat (b - a)) (drop (nat a) m)"
  by (simp add: mm_getslice_def adjust_index_def Let_def min_def)

lemma mm_setslice_length:
  assumes "mm_setslice m a b v = Inr m'"
  shows "length m' = length m"
proof -
  define a' where "a' = adjust_index (int (length m)) a"
  define b' where "b' = adjust_index (int (length m)) b"
  have ra: "0 \<le> a'" "a' \<le> int (length m)" and rb: "0 \<le> b'" "b' \<le> int (length m)"
    using adjust_index_range [of "int (length m)"] by (simp_all add: a'_def b'_def)
  from assms have l: "int (length v) = max 0 (b' - a')"
    and m': "m' = take (nat a') m @ v @ drop (nat a' + length v) m"
    by (auto simp: mm_setslice_def Let_def a'_def b'_def split: if_splits)
  have "nat a' + length v \<le> length m" using ra rb l by (auto simp: max_def split: if_splits)
  moreover have "nat a' \<le> length m" using ra by linarith
  ultimately show ?thesis unfolding m' by (simp add: min_absorb2)
qed

lemma mm_setslice_inside:
  assumes "0 \<le> a" "a \<le> b" "b \<le> int (length m)" "int (length v) = b - a"
  shows "mm_setslice m a b v = Inr (take (nat a) m @ v @ drop (nat b) m)"
proof -
  have "nat a + length v = nat b" using assms by linarith
  then show ?thesis using assms
    by (simp add: mm_setslice_def adjust_index_def Let_def min_def max_def)
qed

lemma mm_setslice_beyond:
  assumes "int (length m) \<le> a" "a \<le> b" "v \<noteq> []"
  shows "mm_setslice m a b v = Inl IndexError"
proof -
  have "adjust_index (int (length m)) a = int (length m)"
       "adjust_index (int (length m)) b = int (length m)"
    using assms by (simp_all add: adjust_index_def)
  then show ?thesis using assms by (simp add: mm_setslice_def Let_def)
qed

lemma init_Inr:
  assumes "OnDiskMap_init rsize file mode len = Inr m"
  shows "record_size m = rsize \<and> rsize \<noteq> 0 \<and> size_map m = int (length (mm m)) \<and>
         size_map m mod rsize = 0 \<and> length_map m = size_map m div rsize \<and> mm m \<noteq> []"
  using assms
  by (auto simp: OnDiskMap_init_def Let_def split: if_splits option.splits sum.splits)

lemma init_read:
  "OnDiskMap_init rsize (Some c) ''rb'' len =
     (if rsize = 0 then Inl ZeroDivisionError
      else if int (length c) mod rsize \<noteq> 0 then Inl ValueError
      else if c = [] then Inl ValueError
      else Inr \<lparr>record_size = rsize, size_map = int (length c),
                length_map = int (length c) div rsize, mm = c\<rparr>)"
  by (simp add: OnDiskMap_init_def Let_def)

subsection \<open>The binary search\<close>

lemma find_loop_absent:
  "(\<forall>j. lo \<le> j \<and> j \<le> hi \<longrightarrow> fst (PidToIntMap_get_bin_record m j) \<noteq> t) \<Longrightarrow>
   find_loop m t lo hi = Inl KeyError"
proof (induction m t lo hi rule: find_loop.induct)
  case (1 m target lo hi)
  show ?case
  proof (cases "lo \<le> hi")
    case False
    then show ?thesis by (simp add: find_loop.simps)
  next
    case True
    define mid where "mid = (lo + hi) div 2"
    obtain pid n where r: "PidToIntMap_get_bin_record m mid = (pid, n)" by fastforce
    have b: "lo \<le> mid" "mid \<le> hi" using True by (simp_all add: mid_def)
    have ne: "pid \<noteq> target" using "1.prems" b r by (metis fst_conv)
    show ?thesis
    proof (cases "pid < target")
      case lt: True
      have "find_loop m target (mid + 1) hi = Inl KeyError"
        using "1.IH"(1) [OF True mid_def r [symmetric] lt] "1.prems" b by simp
      then show ?thesis
        using True r lt by (subst find_loop.simps) (simp add: mid_def [symmetric])
    next
      case nlt: False
      then have gt: "target < pid" using ne by simp
      have "find_loop m target lo (mid - 1) = Inl KeyError"
        using "1.IH"(2) [OF True mid_def r [symmetric] nlt gt] "1.prems" b by simp
      then show ?thesis
        using True r nlt gt by (subst find_loop.simps) (simp add: mid_def [symmetric])
    qed
  qed
qed

lemma find_loop_found:
  "(\<forall>i j. lo \<le> i \<and> i < j \<and> j \<le> hi \<longrightarrow>
      fst (PidToIntMap_get_bin_record m i) < fst (PidToIntMap_get_bin_record m j)) \<Longrightarrow>
   lo \<le> p \<Longrightarrow> p \<le> hi \<Longrightarrow> fst (PidToIntMap_get_bin_record m p) = t \<Longrightarrow>
   find_loop m t lo hi =
     (case unpack_q (snd (PidToIntMap_get_bin_record m p)) of
        Inl e \<Rightarrow> Inl e | Inr v \<Rightarrow> Inr (v, p))"
proof (induction m t lo hi rule: find_loop.induct)
  case (1 m target lo hi)
  have True: "lo \<le> hi" using "1.prems" by simp
  define mid where "mid = (lo + hi) div 2"
  obtain pid n where r: "PidToIntMap_get_bin_record m mid = (pid, n)" by fastforce
  have b: "lo \<le> mid" "mid \<le> hi" using True by (simp_all add: mid_def)
  have srt: "\<And>i j. lo \<le> i \<Longrightarrow> i < j \<Longrightarrow> j \<le> hi \<Longrightarrow>
      fst (PidToIntMap_get_bin_record m i) < fst (PidToIntMap_get_bin_record m j)"
    using "1.prems"(1) by blast
  have pid: "fst (PidToIntMap_get_bin_record m mid) = pid" using r by simp
  show ?case
  proof (cases "pid < target")
    case lt: True
    have "mid < p"
    proof (rule ccontr)
      assume "\<not> mid < p"
      then have "p = mid \<or> p < mid" by auto
      then show False
      proof
        assume "p = mid" then show False using lt pid "1.prems"(4) by simp
      next
        assume "p < mid"
        from srt [OF "1.prems"(2) this b(2)] show False using lt pid "1.prems"(4) by simp
      qed
    qed
    then have "find_loop m target (mid + 1) hi =
       (case unpack_q (snd (PidToIntMap_get_bin_record m p)) of
          Inl e \<Rightarrow> Inl e | Inr v \<Rightarrow> Inr (v, p))"
      using "1.IH"(1) [OF True mid_def r [symmetric] lt] "1.prems" b by simp
    then show ?thesis
      using True r lt by (subst find_loop.simps) (simp add: mid_def [symmetric])
  next
    case nlt: False
    show ?thesis
    proof (cases "target < pid")
      case gt: True
      have "p < mid"
      proof (rule ccontr)
        assume "\<not> p < mid"
        then have "p = mid \<or> mid < p" by auto
        then show False
        proof
          assume "p = mid" then show False using gt pid "1.prems"(4) by simp
        next
          assume "mid < p"
          from srt [OF b(1) this "1.prems"(3)] show False using gt pid "1.prems"(4) by simp
        qed
      qed
      then have "find_loop m target lo (mid - 1) =
         (case unpack_q (snd (PidToIntMap_get_bin_record m p)) of
            Inl e \<Rightarrow> Inl e | Inr v \<Rightarrow> Inr (v, p))"
        using "1.IH"(2) [OF True mid_def r [symmetric] nlt gt] "1.prems" b by simp
      then show ?thesis
        using True r nlt gt by (subst find_loop.simps) (simp add: mid_def [symmetric])
    next
      case ngt: False
      then have eq: "pid = target" using nlt by simp
      have "p = mid"
      proof (rule ccontr)
        assume "p \<noteq> mid"
        then have "p < mid \<or> mid < p" by auto
        then show False
        proof
          assume "p < mid"
          from srt [OF "1.prems"(2) this b(2)] show False using eq pid "1.prems"(4) by simp
        next
          assume "mid < p"
          from srt [OF b(1) this "1.prems"(3)] show False using eq pid "1.prems"(4) by simp
        qed
      qed
      then have pm: "p = mid" .
      show ?thesis unfolding pm
        using True r nlt ngt by (subst find_loop.simps) (simp add: mid_def [symmetric])
    qed
  qed
qed

lemma find_loop_Inr:
  "find_loop m t lo hi = Inr (v, p) \<Longrightarrow>
   lo \<le> p \<and> p \<le> hi \<and> fst (PidToIntMap_get_bin_record m p) = t \<and>
   unpack_q (snd (PidToIntMap_get_bin_record m p)) = Inr v"
proof (induction m t lo hi rule: find_loop.induct)
  case (1 m target lo hi)
  have True: "lo \<le> hi" using "1.prems" by (subst (asm) find_loop.simps) (simp split: if_splits)
  define mid where "mid = (lo + hi) div 2"
  obtain pid n where r: "PidToIntMap_get_bin_record m mid = (pid, n)" by fastforce
  have b: "lo \<le> mid" "mid \<le> hi" using True by (simp_all add: mid_def)
  show ?case
  proof (cases "pid < target")
    case lt: True
    have "find_loop m target (mid + 1) hi = Inr (v, p)"
      using "1.prems" True r lt by (subst (asm) find_loop.simps) (simp add: mid_def [symmetric])
    from "1.IH"(1) [OF True mid_def r [symmetric] lt this] show ?thesis using b by simp
  next
    case nlt: False
    show ?thesis
    proof (cases "target < pid")
      case gt: True
      have "find_loop m target lo (mid - 1) = Inr (v, p)"
        using "1.prems" True r nlt gt
        by (subst (asm) find_loop.simps) (simp add: mid_def [symmetric])
      from "1.IH"(2) [OF True mid_def r [symmetric] nlt gt this] show ?thesis using b by simp
    next
      case ngt: False
      then have eq: "pid = target" using nlt by simp
      have "(case unpack_q n of Inl e \<Rightarrow> Inl e | Inr v \<Rightarrow> Inr (v, mid)) = Inr (v, p)"
        using "1.prems" True r nlt ngt
        by (subst (asm) find_loop.simps) (simp add: mid_def [symmetric])
      then show ?thesis using b r eq by (auto split: sum.splits)
    qed
  qed
qed

subsection \<open>The layout of a written file\<close>

lemmas sizes = PidToIntMap_RECORD_SIZE_def IntToPidMap_RECORD_SIZE_def PID_BIN_SIZE_def INT_BIN_SIZE_def

lemma fwd_record_slices:
  assumes "0 \<le> pos" "(pos + 1) * 30 \<le> int (length c)" "mm m = c"
  shows "PidToIntMap_get_bin_record m pos =
           (take 22 (drop (nat (30 * pos)) c), take 8 (drop (nat (30 * pos) + 22) c))"
proof -
  have 1: "mm_getslice c (pos * 30) (pos * 30 + 22) = take 22 (drop (nat (30 * pos)) c)"
    using assms by (subst mm_getslice_inside) (simp_all add: mult.commute)
  have "nat (pos * 30 + 22) = nat (30 * pos) + 22" using assms by (simp add: nat_add_distrib mult.commute)
  then have 2: "mm_getslice c (pos * 30 + 22) (pos * 30 + 22 + 8) = take 8 (drop (nat (30 * pos) + 22) c)"
    using assms by (subst mm_getslice_inside) simp_all
  show ?thesis using 1 2 assms(3) by (simp add: PidToIntMap_get_bin_record_def sizes Let_def)
qed

lemma concat_chunk:
  "(\<forall>x \<in> set xss. length x = c) \<Longrightarrow> i < length xss \<Longrightarrow>
   take c (drop (c * i) (concat xss)) = xss ! i"
proof (induction xss arbitrary: i)
  case Nil
  then show ?case by simp
next
  case (Cons x xss)
  show ?case
  proof (cases i)
    case 0
    then show ?thesis using Cons.prems by simp
  next
    case (Suc j)
    then show ?thesis using Cons by simp
  qed
qed

lemma concat_length: "(\<forall>x \<in> set xss. length x = c) \<Longrightarrow> length (concat xss) = c * length xss"
  by (induction xss) simp_all

lemma write_records_concat:
  "write_records L f recs = (None, f') \<Longrightarrow>
   \<exists>rs. length rs = length recs \<and> f' = f @ concat rs \<and>
     (\<forall>i < length recs. \<exists>k v. str_to_bytes L (fst (recs ! i)) = Inr k \<and>
        pack_q (snd (recs ! i)) = Inr v \<and> rs ! i = k @ v)"
proof (induction recs arbitrary: f)
  case Nil
  then show ?case by simp
next
  case (Cons r recs)
  obtain pid n where r: "r = (pid, n)" by (cases r)
  from Cons.prems r obtain k v where k: "str_to_bytes L pid = Inr k" and v: "pack_q n = Inr v"
    and w: "write_records L (f @ k @ v) recs = (None, f')"
    by (auto simp: PidToIntMap_write_record_def split: sum.splits)
  from Cons.IH [OF w] obtain rs where rs: "length rs = length recs" "f' = (f @ k @ v) @ concat rs"
    "\<forall>i < length recs. \<exists>k v. str_to_bytes L (fst (recs ! i)) = Inr k \<and>
        pack_q (snd (recs ! i)) = Inr v \<and> rs ! i = k @ v" by blast
  have "\<forall>i < length (r # recs). \<exists>k' v'. str_to_bytes L (fst ((r # recs) ! i)) = Inr k' \<and>
        pack_q (snd ((r # recs) ! i)) = Inr v' \<and> ((k @ v) # rs) ! i = k' @ v'"
  proof (intro allI impI)
    fix i assume "i < length (r # recs)"
    then show "\<exists>k' v'. str_to_bytes L (fst ((r # recs) ! i)) = Inr k' \<and>
        pack_q (snd ((r # recs) ! i)) = Inr v' \<and> ((k @ v) # rs) ! i = k' @ v'"
      using rs(3) k v r by (cases i) auto
  qed
  then show ?case using rs(1,2) by (intro exI [of _ "(k @ v) # rs"]) simp
qed

lemma built_records:
  assumes build: "write_records L [] recs = (None, file)"
    and op: "PidToIntMap_init (Some file) ''rb'' len = Inr m"
  shows "length_map m = int (length recs)"
    and "\<And>i. i < length recs \<Longrightarrow>
          \<exists>k v. str_to_bytes L (fst (recs ! i)) = Inr k \<and> pack_q (snd (recs ! i)) = Inr v \<and>
                PidToIntMap_get_bin_record m (int i) = (k, v)"
proof -
  from write_records_concat [OF build] obtain rs where rs: "length rs = length recs"
    "file = concat rs"
    "\<forall>i < length recs. \<exists>k v. str_to_bytes L (fst (recs ! i)) = Inr k \<and>
        pack_q (snd (recs ! i)) = Inr v \<and> rs ! i = k @ v" by auto
  have len30: "\<forall>x \<in> set rs. length x = 30"
  proof
    fix x assume "x \<in> set rs"
    then obtain i where i: "i < length rs" "x = rs ! i" by (auto simp: in_set_conv_nth)
    with rs obtain k v where "str_to_bytes L (fst (recs ! i)) = Inr k"
        "pack_q (snd (recs ! i)) = Inr v" "x = k @ v" by auto
    then show "length x = 30" using str_to_bytes_length pack_q_length by fastforce
  qed
  have flen: "length file = 30 * length recs" using concat_length [OF len30] rs by simp
  from op have mm: "mm m = file" and lm: "length_map m = int (length file) div 30"
    by (auto simp: PidToIntMap_init_def init_read sizes split: if_splits)
  show "length_map m = int (length recs)" using lm flen by simp
  fix i assume i: "i < length recs"
  with rs obtain k v where kv: "str_to_bytes L (fst (recs ! i)) = Inr k"
        "pack_q (snd (recs ! i)) = Inr v" "rs ! i = k @ v" by auto
  have lk: "length k = 22" and lv: "length v = 8"
    using kv str_to_bytes_length pack_q_length by auto
  have ch: "take 30 (drop (30 * i) file) = k @ v"
    using concat_chunk [OF len30, of i] i rs kv by simp
  have "(int i + 1) * 30 \<le> int (length file)" using i flen by simp
  from fwd_record_slices [OF _ this mm]
  have g: "PidToIntMap_get_bin_record m (int i) =
      (take 22 (drop (30 * i) file), take 8 (drop (30 * i + 22) file))"
    by (simp add: nat_mult_distrib)
  have "take 22 (drop (30 * i) file) = take 22 (take 30 (drop (30 * i) file))" by simp
  also have "\<dots> = k" using ch lk by simp
  finally have 1: "take 22 (drop (30 * i) file) = k" .
  have "take 8 (drop (30 * i + 22) file) = drop 22 (take 30 (drop (30 * i) file))"
    by (simp add: drop_take add.commute)
  also have "\<dots> = v" using ch lk by simp
  finally have 2: "take 8 (drop (30 * i + 22) file) = v" .
  show "\<exists>k v. str_to_bytes L (fst (recs ! i)) = Inr k \<and> pack_q (snd (recs ! i)) = Inr v \<and>
                PidToIntMap_get_bin_record m (int i) = (k, v)"
    using kv g 1 2 by simp
qed

lemma built_keys:
  assumes build: "write_records L [] recs = (None, file)"
    and keys: "list_all2 (\<lambda>r k. str_to_bytes L (fst r) = Inr k) recs ks"
    and op: "PidToIntMap_init (Some file) ''rb'' len = Inr m"
    and i: "0 \<le> i" "i < int (length recs)"
  shows "fst (PidToIntMap_get_bin_record m i) = ks ! nat i"
    and "unpack_q (snd (PidToIntMap_get_bin_record m i)) = Inr (snd (recs ! nat i))"
proof -
  have n: "nat i < length recs" using i by simp
  from built_records(2) [OF build op n] i obtain k v where
    kv: "str_to_bytes L (fst (recs ! nat i)) = Inr k" "pack_q (snd (recs ! nat i)) = Inr v"
      "PidToIntMap_get_bin_record m i = (k, v)" by auto
  have "str_to_bytes L (fst (recs ! nat i)) = Inr (ks ! nat i)"
    using keys n by (simp add: list_all2_conv_all_nth)
  then show "fst (PidToIntMap_get_bin_record m i) = ks ! nat i" using kv by simp
  show "unpack_q (snd (PidToIntMap_get_bin_record m i)) = Inr (snd (recs ! nat i))"
    using kv unpack_pack_q by simp
qed


subsection \<open>The reverse index\<close>

lemma init_inv: "OnDiskMap_init rsize file mode len = Inr m \<Longrightarrow> OnDiskMap_inv rsize m"
  by (drule init_Inr) (auto simp: OnDiskMap_inv_def)

lemma bytes_to_str_not_IndexError:
  "\<forall>t d. PersistentId_str L t d \<noteq> Inl IndexError \<Longrightarrow> bytes_to_str L bs \<noteq> Inl IndexError"
  by (auto simp: bytes_to_str_def unpack_PID_def PidType_by_value_def
      split: sum.splits list.splits if_splits prod.splits)

lemma setitem_rev_length:
  "length (mm (snd (IntToPidMap_setitem L m p x))) = length (mm m) \<and>
   length_map (snd (IntToPidMap_setitem L m p x)) = length_map m \<and>
   size_map (snd (IntToPidMap_setitem L m p x)) = size_map m \<and>
   record_size (snd (IntToPidMap_setitem L m p x)) = record_size m"
  by (auto simp: IntToPidMap_setitem_def Let_def split: sum.splits dest: mm_setslice_length)

subsection \<open>Generators and updates\<close>

lemma generate_spec:
  "generate f ps = (xs, r) \<Longrightarrow>
   length xs \<le> length ps \<and> (\<forall>i < length xs. f (ps ! i) = Inr (xs ! i)) \<and>
   (r = None \<longrightarrow> length xs = length ps) \<and>
   (\<forall>e. r = Some e \<longrightarrow> length xs < length ps \<and> f (ps ! length xs) = Inl e)"
proof (induction ps arbitrary: xs r)
  case Nil
  then show ?case by simp
next
  case (Cons p ps)
  show ?case
  proof (cases "f p")
    case (Inl e)
    then show ?thesis using Cons.prems by auto
  next
    case (Inr y)
    obtain ys r' where g: "generate f ps = (ys, r')" by fastforce
    with Inr Cons.prems have xs: "xs = y # ys" and r: "r = r'" by auto
    note ih = Cons.IH [OF g]
    have "\<forall>i < length xs. f ((p # ps) ! i) = Inr (xs ! i)"
    proof (intro allI impI)
      fix i assume "i < length xs"
      then show "f ((p # ps) ! i) = Inr (xs ! i)" using ih Inr xs by (cases i) auto
    qed
    then show ?thesis using ih xs r by auto
  qed
qed

lemma setitem_fwd_length:
  "length (mm (snd (PidToIntMap_setitem L m x n))) = length (mm m) \<and>
   length_map (snd (PidToIntMap_setitem L m x n)) = length_map m \<and>
   size_map (snd (PidToIntMap_setitem L m x n)) = size_map m \<and>
   record_size (snd (PidToIntMap_setitem L m x n)) = record_size m"
  by (auto simp: PidToIntMap_setitem_def Let_def split: sum.splits prod.splits
      dest!: mm_setslice_length)

lemma upto_from_0: "length [0 .. n - 1] = nat n" "i < nat n \<Longrightarrow> [0 .. n - 1] ! i = int i"
  by simp_all

subsection \<open>Updates of the forward index\<close>

lemma frame_nth:
  assumes "length v = 8" "a + 30 \<le> length xs" "i < length xs" "i < a + 22 \<or> a + 30 \<le> i"
  shows "(take (a + 22) xs @ v @ drop (a + 30) xs) ! i = xs ! i"
proof (cases "i < a + 22")
  case True
  then show ?thesis using assms by (simp add: nth_append)
next
  case False
  then have i: "a + 30 \<le> i" using assms(4) by simp
  have "(take (a + 22) xs @ v @ drop (a + 30) xs) ! i = (v @ drop (a + 30) xs) ! (i - (a + 22))"
    using False assms by (simp add: nth_append min_def)
  also have "\<dots> = drop (a + 30) xs ! (i - (a + 22) - 8)"
  proof -
    have "\<not> i - (a + 22) < length v" using i assms(1) by simp
    then show ?thesis using assms(1) by (simp add: nth_append)
  qed
  also have "\<dots> = xs ! i" using i assms by simp
  finally show ?thesis .
qed

lemma key_rewrite:
  "k = take 22 (drop a xs) \<Longrightarrow> take a xs @ k @ drop (a + 22) xs = xs"
  by (metis add.commute append_take_drop_id drop_drop)

lemma setitem_found:
  assumes inv: "OnDiskMap_inv PidToIntMap_RECORD_SIZE m"
    and f: "PidToIntMap_find L m x = Inr (old, pos)"
  shows "0 \<le> pos \<and> pos < length_map m \<and>
         str_to_bytes L x = Inr (fst (PidToIntMap_get_bin_record m pos)) \<and>
         nat (30 * pos) + 30 \<le> length (mm m) \<and>
         PidToIntMap_setitem L m x n =
           (case pack_q n of
              Inl e \<Rightarrow> (Some e, m)
            | Inr v \<Rightarrow> (None, m\<lparr>mm := take (nat (30 * pos) + 22) (mm m) @ v @
                                        drop (nat (30 * pos) + 30) (mm m)\<rparr>))"
proof -
  from f obtain k where k: "str_to_bytes L x = Inr k"
    and fl: "find_loop m k 0 (length_map m - 1) = Inr (old, pos)"
    by (auto simp: PidToIntMap_find_def split: sum.splits if_splits)
  from find_loop_Inr [OF fl] have pos: "0 \<le> pos" "pos \<le> length_map m - 1"
    and key: "fst (PidToIntMap_get_bin_record m pos) = k" by auto
  have len: "int (length (mm m)) = length_map m * 30"
    using inv by (simp add: OnDiskMap_inv_def sizes)
  then have le: "(pos + 1) * 30 \<le> int (length (mm m))" using pos by simp
  define a where "a = nat (30 * pos)"
  have a: "int a = pos * 30" using pos by (simp add: a_def)
  have "pos * 30 + 30 \<le> int (length (mm m))" using le by (simp add: algebra_simps)
  then have la: "a + 30 \<le> length (mm m)" using a by linarith
  from fwd_record_slices [OF pos(1) le refl] key
  have kk: "k = take 22 (drop a (mm m))" by (simp add: a_def)
  have lk: "length k = 22" using k by (rule str_to_bytes_length)
  have s1: "mm_setslice (mm m) (pos * 30) (pos * 30 + 22) k = Inr (mm m)"
  proof -
    have "mm_setslice (mm m) (pos * 30) (pos * 30 + 22) k =
          Inr (take (nat (pos * 30)) (mm m) @ k @ drop (nat (pos * 30 + 22)) (mm m))"
      using pos le lk by (intro mm_setslice_inside) auto
    moreover have "nat (pos * 30) = a" "nat (pos * 30 + 22) = a + 22" using a by linarith+
    ultimately show ?thesis using key_rewrite [OF kk] by simp
  qed
  have s2: "\<And>v. length v = 8 \<Longrightarrow> mm_setslice (mm m) (pos * 30 + 22) (pos * 30 + 22 + 8) v =
           Inr (take (a + 22) (mm m) @ v @ drop (a + 30) (mm m))"
  proof -
    fix v :: bytes assume lv: "length v = 8"
    have "mm_setslice (mm m) (pos * 30 + 22) (pos * 30 + 22 + 8) v =
          Inr (take (nat (pos * 30 + 22)) (mm m) @ v @ drop (nat (pos * 30 + 22 + 8)) (mm m))"
      using pos le lv by (intro mm_setslice_inside) auto
    moreover have "nat (pos * 30 + 22) = a + 22" "nat (pos * 30 + 22 + 8) = a + 30"
      using a by linarith+
    ultimately show "mm_setslice (mm m) (pos * 30 + 22) (pos * 30 + 22 + 8) v =
           Inr (take (a + 22) (mm m) @ v @ drop (a + 30) (mm m))" by simp
  qed
  have "PidToIntMap_setitem L m x n =
           (case pack_q n of
              Inl e \<Rightarrow> (Some e, m)
            | Inr v \<Rightarrow> (None, m\<lparr>mm := take (a + 22) (mm m) @ v @ drop (a + 30) (mm m)\<rparr>))"
  proof (cases "pack_q n")
    case (Inl e)
    then show ?thesis using f k s1 by (simp add: PidToIntMap_setitem_def Let_def sizes)
  next
    case (Inr v)
    then have "length v = 8" by (rule pack_q_length)
    from s2 [OF this] Inr show ?thesis
      using f k s1 by (simp add: PidToIntMap_setitem_def Let_def sizes)
  qed
  then show ?thesis using pos k key la unfolding a_def by simp
qed

subsection \<open>The accesses of the binary search\<close>

lemma traced_record:
  "PidToIntMap_get_bin_record_traced m pos =
     (PidToIntMap_get_bin_record m pos,
      [(pos * 30, pos * 30 + 22), (pos * 30 + 22, pos * 30 + 30)])"
  by (simp add: PidToIntMap_get_bin_record_traced_def PidToIntMap_get_bin_record_def mm_read_def
      Let_def sizes)

lemma find_traced_spec:
  "find_traced m t lo hi =
     (find_loop m t lo hi,
      concat (map (\<lambda>p. [(p * 30, p * 30 + 22), (p * 30 + 22, p * 30 + 30)])
                  (find_probes m t lo hi)))"
proof (induction m t lo hi rule: find_loop.induct)
  case (1 m target lo hi)
  show ?case
  proof (cases "lo \<le> hi")
    case False
    then show ?thesis
      by (simp add: find_loop.simps [of _ _ lo hi] find_probes.simps [of _ _ lo hi]
          find_traced.simps [of _ _ lo hi])
  next
    case True
    define mid where "mid = (lo + hi) div 2"
    obtain pid n where r: "PidToIntMap_get_bin_record m mid = (pid, n)" by fastforce
    show ?thesis
    proof (cases "pid < target")
      case lt: True
      from "1.IH"(1) [OF True mid_def r [symmetric] lt] show ?thesis using True r lt
        by (simp add: find_loop.simps [of _ _ lo hi] find_probes.simps [of _ _ lo hi]
            find_traced.simps [of _ _ lo hi] traced_record mid_def [symmetric])
    next
      case nlt: False
      show ?thesis
      proof (cases "target < pid")
        case gt: True
        from "1.IH"(2) [OF True mid_def r [symmetric] nlt gt] show ?thesis using True r nlt gt
          by (simp add: find_loop.simps [of _ _ lo hi] find_probes.simps [of _ _ lo hi]
              find_traced.simps [of _ _ lo hi] traced_record mid_def [symmetric])
      next
        case ngt: False
        then show ?thesis using True r nlt
          by (simp add: find_loop.simps [of _ _ lo hi] find_probes.simps [of _ _ lo hi]
              find_traced.simps [of _ _ lo hi] traced_record mid_def [symmetric]
              split: sum.splits)
      qed
    qed
  qed
qed

lemma find_same:
  assumes "\<forall>p. lo \<le> p \<and> p \<le> hi \<longrightarrow>
             fst (PidToIntMap_get_bin_record m1 p) = fst (PidToIntMap_get_bin_record m2 p)"
    and "\<forall>p. lo \<le> p \<and> p \<le> hi \<and> fst (PidToIntMap_get_bin_record m1 p) = t \<longrightarrow>
             snd (PidToIntMap_get_bin_record m1 p) = snd (PidToIntMap_get_bin_record m2 p)"
  shows "find_probes m1 t lo hi = find_probes m2 t lo hi \<and>
         find_loop m1 t lo hi = find_loop m2 t lo hi"
  using assms
proof (induction m1 t lo hi rule: find_loop.induct)
  case (1 m target lo hi)
  show ?case
  proof (cases "lo \<le> hi")
    case False
    then show ?thesis
      by (simp add: find_loop.simps [of _ _ lo hi] find_probes.simps [of _ _ lo hi])
  next
    case True
    define mid where "mid = (lo + hi) div 2"
    have b: "lo \<le> mid" "mid \<le> hi" using True by (simp_all add: mid_def)
    obtain pid n where r: "PidToIntMap_get_bin_record m mid = (pid, n)" by fastforce
    obtain pid2 n2 where r2: "PidToIntMap_get_bin_record m2 mid = (pid2, n2)" by fastforce
    have pe: "pid2 = pid" using "1.prems"(1) b r r2 by (metis fst_conv)
    show ?thesis
    proof (cases "pid < target")
      case lt: True
      have "find_probes m target (mid + 1) hi = find_probes m2 target (mid + 1) hi \<and>
            find_loop m target (mid + 1) hi = find_loop m2 target (mid + 1) hi"
        using "1.prems" b by (intro "1.IH"(1) [OF True mid_def r [symmetric] lt]) auto
      then show ?thesis using True r r2 pe lt
        by (simp add: find_loop.simps [of _ _ lo hi] find_probes.simps [of _ _ lo hi]
            mid_def [symmetric])
    next
      case nlt: False
      show ?thesis
      proof (cases "target < pid")
        case gt: True
        have "find_probes m target lo (mid - 1) = find_probes m2 target lo (mid - 1) \<and>
              find_loop m target lo (mid - 1) = find_loop m2 target lo (mid - 1)"
          using "1.prems" b by (intro "1.IH"(2) [OF True mid_def r [symmetric] nlt gt]) auto
        then show ?thesis using True r r2 pe nlt gt
          by (simp add: find_loop.simps [of _ _ lo hi] find_probes.simps [of _ _ lo hi]
              mid_def [symmetric])
      next
        case ngt: False
        then have "pid = target" using nlt by simp
        then have "n2 = n" using "1.prems"(2) b r r2 by (metis fst_conv snd_conv)
        then show ?thesis using True r r2 pe nlt ngt
          by (simp add: find_loop.simps [of _ _ lo hi] find_probes.simps [of _ _ lo hi]
              mid_def [symmetric])
      qed
    qed
  qed
qed



lemma rev_record_slice:
  assumes "OnDiskMap_inv IntToPidMap_RECORD_SIZE m" "0 \<le> p" "p < length_map m"
  shows "IntToPidMap_get_bin_record m p = take 22 (drop (nat (22 * p)) (mm m))"
proof -
  have len: "int (length (mm m)) = length_map m * 22"
    using assms(1) by (simp add: OnDiskMap_inv_def sizes)
  have "p * 22 + 22 \<le> length_map m * 22" using assms(3) by simp
  then have "mm_getslice (mm m) (p * 22) (p * 22 + 22) =
             take (nat (p * 22 + 22 - p * 22)) (drop (nat (p * 22)) (mm m))"
    using assms(2) len by (intro mm_getslice_inside) simp_all
  then show ?thesis by (simp add: IntToPidMap_get_bin_record_def sizes Let_def mult.commute)
qed

section \<open>The claims\<close>

text \<open>
  C1 (codec round trip): for every valid textual identifier \<open>x\<close>, that is, one in
  canonical form that \<open>str_to_bytes\<close> encodes, decoding its 22-byte encoding
  version, type, digest gives \<open>x\<close> again.
\<close>

theorem C1_roundtrip:
  assumes "canonical L x" and "str_to_bytes L x = Inr bs"
  shows "length bs = 22 \<and> bytes_to_str L bs = Inr x"
proof -
  from assms(1) obtain p d where p: "parse_persistent_identifier L x = Inr p"
    and d: "bytes_fromhex (object_id p) = Inr d" and l: "length d = 20"
    and s: "PersistentId_str L (object_type p) d = Inr x"
    by (auto simp: canonical_def split: sum.splits)
  from assms(2) p d obtain t where t: "PidType_by_name (object_type p) = Inr t"
    and pk: "pack_PID (scheme_version p) (PidType_value t) d = Inr bs"
    by (auto simp: str_to_bytes_def split: sum.splits)
  have "unpack_PID bs = Inr (scheme_version p, PidType_value t, d)"
    using unpack_pack_PID [OF pk] l by (simp add: pack_20s_id)
  then have "bytes_to_str L bs = Inr x"
    using s PidType_by_name_name [OF t]
    by (simp add: bytes_to_str_def PidType_by_value_value)
  then show ?thesis using str_to_bytes_length [OF assms(2)] by simp
qed

theorem C1_roundtrip_witness:
  "canonical swh_identifiers pid_A \<and> str_to_bytes swh_identifiers pid_A = Inr key_A \<and>
   length key_A = 22 \<and> bytes_to_str swh_identifiers key_A = Inr pid_A"
proof -
  have c: "canonical swh_identifiers pid_A" by code_simp
  have e: "str_to_bytes swh_identifiers pid_A = Inr key_A" by code_simp
  from C1_roundtrip [OF c e] c e show ?thesis by simp
qed

text \<open>
  C8 (size validation on open): opening succeeds only on a size that is an exact
  multiple of the record size, and the logical length is then the size divided by the
  record size; an existing file whose size is not a multiple of the (non-zero) record
  size is refused with \<open>ValueError\<close>.
\<close>

theorem C8_open_size_validation:
  "(OnDiskMap_init rsize file mode len = Inr m \<longrightarrow>
      size_map m = int (length (mm m)) \<and> size_map m mod rsize = 0 \<and>
      length_map m = size_map m div rsize) \<and>
   ((mode = ''rb'' \<or> mode = ''rb+'') \<and> OnDiskMap_init rsize (Some c) mode len = Inr m \<longrightarrow>
      mm m = c) \<and>
   ((mode = ''rb'' \<or> mode = ''rb+'') \<and> rsize \<noteq> 0 \<and> int (length c) mod rsize \<noteq> 0 \<longrightarrow>
      OnDiskMap_init rsize (Some c) mode len = Inl ValueError)"
proof (intro conjI impI)
  assume "OnDiskMap_init rsize file mode len = Inr m"
  from init_Inr [OF this]
  show "size_map m = int (length (mm m))" "size_map m mod rsize = 0"
    "length_map m = size_map m div rsize" by blast+
next
  assume "(mode = ''rb'' \<or> mode = ''rb+'') \<and> OnDiskMap_init rsize (Some c) mode len = Inr m"
  then show "mm m = c"
    by (auto simp: OnDiskMap_init_def Let_def split: if_splits)
next
  assume "(mode = ''rb'' \<or> mode = ''rb+'') \<and> rsize \<noteq> 0 \<and> int (length c) mod rsize \<noteq> 0"
  then show "OnDiskMap_init rsize (Some c) mode len = Inl ValueError"
    by (auto simp: OnDiskMap_init_def Let_def)
qed

theorem C8_open_size_validation_witness:
  "OnDiskMap_init 30 (Some (key_A @ [0, 0, 0, 0, 0, 0, 0, 0, 0])) ''rb'' None = Inl ValueError \<and>
   (\<exists>m. OnDiskMap_init 30 (Some (key_A @ [0, 0, 0, 0, 0, 0, 0, 0])) ''rb'' None = Inr m \<and>
        size_map m = 30 \<and> length_map m = 1)"
proof -
  have 1: "OnDiskMap_init 30 (Some (key_A @ [0, 0, 0, 0, 0, 0, 0, 0, 0])) ''rb'' None = Inl ValueError"
    using C8_open_size_validation [of 30 "Some []" "''rb''" None undefined "key_A @ [0, 0, 0, 0, 0, 0, 0, 0, 0]"]
    by (simp add: key_A_def)
  obtain m where m: "OnDiskMap_init 30 (Some (key_A @ [0, 0, 0, 0, 0, 0, 0, 0])) ''rb'' None = Inr m"
    by (simp add: init_read key_A_def)
  from C8_open_size_validation [of 30 "Some (key_A @ [0, 0, 0, 0, 0, 0, 0, 0])" "''rb''" None m
      "key_A @ [0, 0, 0, 0, 0, 0, 0, 0]"] m
  have "size_map m = 30 \<and> length_map m = 1" by (simp add: key_A_def)
  with 1 m show ?thesis by blast
qed

text \<open>
  C2 (binary search): on a forward index file written record by record in strictly
  ascending order of the 22-byte keys, lookup returns the node id written for every
  key written, and raises \<open>KeyError\<close> for every encodable key that was not written.
\<close>

theorem C2_lookup_correct:
  assumes build: "write_records L [] recs = (None, file)"
    and keys: "list_all2 (\<lambda>r k. str_to_bytes L (fst r) = Inr k) recs ks"
    and asc: "sorted_wrt (<) ks"
    and op: "PidToIntMap_init (Some file) ''rb'' None = Inr m"
  shows "(\<forall>r \<in> set recs. PidToIntMap_getitem L m (fst r) = Inr (snd r)) \<and>
         (\<forall>x k. str_to_bytes L x = Inr k \<and> k \<notin> set ks \<longrightarrow>
                PidToIntMap_getitem L m x = Inl KeyError)"
proof (intro conjI ballI allI impI)
  have len: "length_map m = int (length recs)" by (rule built_records(1) [OF build op])
  have lks: "length ks = length recs" using keys by (simp add: list_all2_lengthD)
  note bk = built_keys [OF build keys op]
  {
    fix r assume "r \<in> set recs"
    then obtain p where p: "p < length recs" "recs ! p = r" by (auto simp: in_set_conv_nth)
    have t: "str_to_bytes L (fst r) = Inr (ks ! p)"
      using keys p by (auto simp: list_all2_conv_all_nth)
    have srt: "\<forall>i j. 0 \<le> i \<and> i < j \<and> j \<le> length_map m - 1 \<longrightarrow>
        fst (PidToIntMap_get_bin_record m i) < fst (PidToIntMap_get_bin_record m j)"
    proof (intro allI impI)
      fix i j :: int assume a: "0 \<le> i \<and> i < j \<and> j \<le> length_map m - 1"
      then have "nat i < nat j" "nat j < length ks" using len lks by auto
      then have "ks ! nat i < ks ! nat j" using asc by (simp add: sorted_wrt_iff_nth_less)
      then show "fst (PidToIntMap_get_bin_record m i) < fst (PidToIntMap_get_bin_record m j)"
        using bk(1) [of i] bk(1) [of j] a len by simp
    qed
    have "find_loop m (ks ! p) 0 (length_map m - 1) =
        (case unpack_q (snd (PidToIntMap_get_bin_record m (int p))) of
           Inl e \<Rightarrow> Inl e | Inr v \<Rightarrow> Inr (v, int p))"
      using p len bk(1) [of "int p"] by (intro find_loop_found [OF srt]) simp_all
    then have "find_loop m (ks ! p) 0 (length_map m - 1) = Inr (snd r, int p)"
      using bk(2) [of "int p"] p by simp
    then show "PidToIntMap_getitem L m (fst r) = Inr (snd r)"
      using t by (simp add: PidToIntMap_getitem_def PidToIntMap_find_def)
  }
  {
    fix x k assume a: "str_to_bytes L x = Inr k \<and> k \<notin> set ks"
    have "\<forall>j. 0 \<le> j \<and> j \<le> length_map m - 1 \<longrightarrow> fst (PidToIntMap_get_bin_record m j) \<noteq> k"
    proof (intro allI impI)
      fix j assume j: "0 \<le> j \<and> j \<le> length_map m - 1"
      then have "nat j < length ks" using len lks by auto
      then have "ks ! nat j \<in> set ks" by simp
      then show "fst (PidToIntMap_get_bin_record m j) \<noteq> k"
        using bk(1) [of j] j len a by auto
    qed
    from find_loop_absent [OF this] a
    show "PidToIntMap_getitem L m x = Inl KeyError"
      by (simp add: PidToIntMap_getitem_def PidToIntMap_find_def)
  }
qed

theorem C2_lookup_correct_witness:
  "PidToIntMap_getitem swh_identifiers sample_map pid_B = Inr 1 \<and>
   PidToIntMap_getitem swh_identifiers sample_map pid_D = Inl KeyError"
proof -
  have b: "write_records swh_identifiers [] sample_recs = (None, sample_file)" by code_simp
  have k: "list_all2 (\<lambda>r k. str_to_bytes swh_identifiers (fst r) = Inr k) sample_recs
             [key_A, key_B, key_C]" by code_simp
  have s: "sorted_wrt (<) [key_A, key_B, key_C]" by code_simp
  have o: "PidToIntMap_init (Some sample_file) ''rb'' None = Inr sample_map" by code_simp
  have d: "str_to_bytes swh_identifiers pid_D = Inr key_D" by code_simp
  have n: "key_D \<notin> set [key_A, key_B, key_C]" by code_simp
  have m: "(pid_B, 1) \<in> set sample_recs" by (simp add: sample_recs_def)
  from C2_lookup_correct [OF b k s o] m d n show ?thesis by fastforce
qed

text \<open>
  C7 (sortedness is not validated): every non-empty file whose size is a multiple of
  30 opens, whatever the order of its records; and two records written in descending
  key order give a file that opens and on which the lookup of the smaller key, present
  at position 1, raises \<open>KeyError\<close>.
\<close>

theorem C7_sortedness_unvalidated:
  assumes "str_to_bytes L x = Inr k1" "str_to_bytes L y = Inr k2" "k1 < k2"
    and "pack_q a = Inr v1" "pack_q b = Inr v2"
  shows "(\<forall>c. c \<noteq> [] \<and> int (length c) mod 30 = 0 \<longrightarrow>
            (\<exists>m. PidToIntMap_init (Some c) ''rb'' None = Inr m \<and> mm m = c)) \<and>
         (\<exists>file m. write_records L [] [(y, b), (x, a)] = (None, file) \<and>
            PidToIntMap_init (Some file) ''rb'' None = Inr m \<and>
            PidToIntMap_get_bin_record m 1 = (k1, v1) \<and>
            PidToIntMap_getitem L m x = Inl KeyError)"
proof (intro conjI allI impI)
  fix c :: bytes assume "c \<noteq> [] \<and> int (length c) mod 30 = 0"
  then show "\<exists>m. PidToIntMap_init (Some c) ''rb'' None = Inr m \<and> mm m = c"
    by (simp add: PidToIntMap_init_def init_read sizes)
next
  define fl where "fl = k2 @ v2 @ k1 @ v1"
  have w: "write_records L [] [(y, b), (x, a)] = (None, fl)"
    using assms by (simp add: PidToIntMap_write_record_def fl_def)
  have l: "length fl = 60"
    using assms str_to_bytes_length pack_q_length by (fastforce simp: fl_def)
  then have "fl \<noteq> []" by auto
  then have "\<exists>m. PidToIntMap_init (Some fl) ''rb'' None = Inr m"
    using l by (simp add: PidToIntMap_init_def init_read sizes)
  then obtain m where m: "PidToIntMap_init (Some fl) ''rb'' None = Inr m" by blast
  have lm: "length_map m = 2" using built_records(1) [OF w m] by simp
  from built_records(2) [OF w m, of 0] assms
  have r0: "PidToIntMap_get_bin_record m 0 = (k2, v2)" by auto
  from built_records(2) [OF w m, of 1] assms
  have r1: "PidToIntMap_get_bin_record m 1 = (k1, v1)" by auto
  have "find_loop m k1 0 1 = find_loop m k1 0 (- 1)"
    using r0 assms(3) by (subst find_loop.simps) auto
  also have "\<dots> = Inl KeyError" by (subst find_loop.simps) simp
  finally have "PidToIntMap_getitem L m x = Inl KeyError"
    using assms(1) lm by (simp add: PidToIntMap_getitem_def PidToIntMap_find_def)
  with w m r1 show "\<exists>file m. write_records L [] [(y, b), (x, a)] = (None, file) \<and>
            PidToIntMap_init (Some file) ''rb'' None = Inr m \<and>
            PidToIntMap_get_bin_record m 1 = (k1, v1) \<and>
            PidToIntMap_getitem L m x = Inl KeyError" by blast
qed

theorem C7_sortedness_unvalidated_witness:
  "\<exists>file m. write_records swh_identifiers [] [(pid_B, 1), (pid_A, 0)] = (None, file) \<and>
     PidToIntMap_init (Some file) ''rb'' None = Inr m \<and>
     PidToIntMap_get_bin_record m 1 = (key_A, [0, 0, 0, 0, 0, 0, 0, 0]) \<and>
     PidToIntMap_getitem swh_identifiers m pid_A = Inl KeyError"
proof -
  have 1: "str_to_bytes swh_identifiers pid_A = Inr key_A" by code_simp
  have 2: "str_to_bytes swh_identifiers pid_B = Inr key_B" by code_simp
  have 3: "key_A < key_B" by code_simp
  have 4: "pack_q 0 = Inr [0, 0, 0, 0, 0, 0, 0, 0]" by code_simp
  have 5: "pack_q 1 = Inr [0, 0, 0, 0, 0, 0, 0, 1]" by code_simp
  from C7_sortedness_unvalidated [OF 1 2 3 4 5] show ?thesis by blast
qed

text \<open>
  C9 (the reverse \<open>set\<close> cannot grow the file): at a position \<open>p \<ge> L\<close> the call
  raises (\<open>IndexError\<close> from the slice assignment when the identifier encodes, the
  encoding error otherwise) and leaves the map as it was; and no call at any position
  changes the number of bytes or the logical length.
\<close>

theorem C9_set_beyond_end:
  assumes "OnDiskMap_inv IntToPidMap_RECORD_SIZE m" and "length_map m \<le> p"
  shows "IntToPidMap_setitem L m p x =
           (Some (case str_to_bytes L x of Inl e \<Rightarrow> e | Inr k \<Rightarrow> IndexError), m) \<and>
         (\<forall>q y. length (mm (snd (IntToPidMap_setitem L m q y))) = length (mm m) \<and>
                length_map (snd (IntToPidMap_setitem L m q y)) = length_map m)"
proof (intro conjI allI)
  show "IntToPidMap_setitem L m p x =
           (Some (case str_to_bytes L x of Inl e \<Rightarrow> e | Inr k \<Rightarrow> IndexError), m)"
  proof (cases "str_to_bytes L x")
    case (Inl e)
    then show ?thesis by (simp add: IntToPidMap_setitem_def Let_def)
  next
    case (Inr k)
    then have "length k = 22" by (rule str_to_bytes_length)
    then have ne: "k \<noteq> []" by auto
    have "int (length (mm m)) = length_map m * 22"
      using assms(1) by (simp add: OnDiskMap_inv_def sizes)
    then have "int (length (mm m)) \<le> p * 22" using assms(2) by simp
    from mm_setslice_beyond [OF this _ ne, of "p * 22 + 22"]
    show ?thesis using Inr by (simp add: IntToPidMap_setitem_def Let_def sizes)
  qed
  fix q y
  show "length (mm (snd (IntToPidMap_setitem L m q y))) = length (mm m)"
    using setitem_rev_length by blast
  show "length_map (snd (IntToPidMap_setitem L m q y)) = length_map m"
    using setitem_rev_length by blast
qed

theorem C9_set_beyond_end_witness:
  "IntToPidMap_setitem swh_identifiers rev_map 3 pid_D = (Some IndexError, rev_map)"
proof -
  have 1: "OnDiskMap_inv IntToPidMap_RECORD_SIZE rev_map" by code_simp
  have 2: "length_map rev_map \<le> 3" by (simp add: rev_map_def)
  have 3: "str_to_bytes swh_identifiers pid_D = Inr key_D" by code_simp
  from C9_set_beyond_end [OF 1 2, of swh_identifiers pid_D] 3 show ?thesis by simp
qed

text \<open>
  C10 (length invariance), as amended: an update of either index leaves the logical
  length and the number of bytes of the mapping as they were (lookups and iteration
  write nothing); each iterator yields the records in increasing position order, all
  \<open>length\<close> of them when it ends normally, and otherwise the records before the first
  one whose decoding raises, ending with that exception.
\<close>

theorem C10_length_invariance:
  "length_map (snd (PidToIntMap_setitem L m x n)) = length_map m \<and>
   length (mm (snd (PidToIntMap_setitem L m x n))) = length (mm m) \<and>
   length_map (snd (IntToPidMap_setitem L m p x)) = length_map m \<and>
   length (mm (snd (IntToPidMap_setitem L m p x))) = length (mm m) \<and>
   (PidToIntMap_iter L m = (xs, r) \<longrightarrow>
      length xs \<le> nat (length_map m) \<and>
      (\<forall>i < length xs. PidToIntMap_get_record L m (int i) = Inr (xs ! i)) \<and>
      (r = None \<longrightarrow> length xs = nat (length_map m)) \<and>
      (\<forall>e. r = Some e \<longrightarrow> PidToIntMap_get_record L m (int (length xs)) = Inl e)) \<and>
   (IntToPidMap_iter L m = (ys, r') \<longrightarrow>
      length ys \<le> nat (length_map m) \<and>
      (\<forall>i < length ys. IntToPidMap_getitem L m (int i) = Inr (snd (ys ! i)) \<and>
                         fst (ys ! i) = int i) \<and>
      (r' = None \<longrightarrow> length ys = nat (length_map m)) \<and>
      (\<forall>e. r' = Some e \<longrightarrow> IntToPidMap_getitem L m (int (length ys)) = Inl e))"
proof (intro conjI impI)
  show "length_map (snd (PidToIntMap_setitem L m x n)) = length_map m"
    "length (mm (snd (PidToIntMap_setitem L m x n))) = length (mm m)"
    using setitem_fwd_length by blast+
  show "length_map (snd (IntToPidMap_setitem L m p x)) = length_map m"
    "length (mm (snd (IntToPidMap_setitem L m p x))) = length (mm m)"
    using setitem_rev_length by blast+
next
  assume "PidToIntMap_iter L m = (xs, r)"
  then have g: "generate (PidToIntMap_get_record L m) [0 .. length_map m - 1] = (xs, r)"
    by (simp add: PidToIntMap_iter_def)
  note s = generate_spec [OF g]
  show "length xs \<le> nat (length_map m)" using s by simp
  show "\<forall>i < length xs. PidToIntMap_get_record L m (int i) = Inr (xs ! i)"
    using s by (auto simp: upto_from_0)
  show "r = None \<Longrightarrow> length xs = nat (length_map m)" using s by simp
  show "\<forall>e. r = Some e \<longrightarrow> PidToIntMap_get_record L m (int (length xs)) = Inl e"
    using s by (auto simp: upto_from_0)
next
  assume "IntToPidMap_iter L m = (ys, r')"
  then have g: "generate (\<lambda>pos. case IntToPidMap_getitem L m pos of
                       Inl e \<Rightarrow> Inl e | Inr s \<Rightarrow> Inr (pos, s)) [0 .. length_map m - 1] = (ys, r')"
    by (simp add: IntToPidMap_iter_def)
  note s = generate_spec [OF g]
  show "length ys \<le> nat (length_map m)" using s by simp
  show "\<forall>i < length ys. IntToPidMap_getitem L m (int i) = Inr (snd (ys ! i)) \<and>
                         fst (ys ! i) = int i"
  proof (intro allI impI)
    fix i assume i: "i < length ys"
    then have "i < nat (length_map m)" using s by simp
    with s i have "(case IntToPidMap_getitem L m (int i) of
                       Inl e \<Rightarrow> Inl e | Inr s \<Rightarrow> Inr (int i, s)) = Inr (ys ! i)"
      by (auto simp: upto_from_0 cong: sum.case_cong)
    then show "IntToPidMap_getitem L m (int i) = Inr (snd (ys ! i)) \<and> fst (ys ! i) = int i"
      by (cases "IntToPidMap_getitem L m (int i)") (auto simp: fst_def snd_def split: prod.splits)
  qed
  show "r' = None \<Longrightarrow> length ys = nat (length_map m)" using s by simp
  show "\<forall>e. r' = Some e \<longrightarrow> IntToPidMap_getitem L m (int (length ys)) = Inl e"
  proof (intro allI impI)
    fix e assume "r' = Some e"
    with s have "length ys < nat (length_map m)" and
      "(case IntToPidMap_getitem L m ([0 .. length_map m - 1] ! length ys) of
                       Inl e \<Rightarrow> Inl e | Inr s \<Rightarrow> Inr ([0 .. length_map m - 1] ! length ys, s)) = Inl e"
      by auto
    then show "IntToPidMap_getitem L m (int (length ys)) = Inl e"
      by (auto simp: upto_from_0 split: sum.splits cong: sum.case_cong)
  qed
qed

theorem C10_length_invariance_witness:
  "PidToIntMap_iter swh_identifiers sample_map = ([(pid_A, 0), (pid_B, 1), (pid_C, 2)], None) \<and>
   length [(pid_A, 0 :: int), (pid_B, 1), (pid_C, 2)] = nat (length_map sample_map) \<and>
   PidToIntMap_get_record swh_identifiers sample_map 1 = Inr (pid_B, 1)"
proof -
  have 1: "PidToIntMap_iter swh_identifiers sample_map =
             ([(pid_A, 0), (pid_B, 1), (pid_C, 2)], None)" by code_simp
  from C10_length_invariance [where L = swh_identifiers and m = sample_map
      and xs = "[(pid_A, 0), (pid_B, 1), (pid_C, 2)]" and r = None] 1
  have "length [(pid_A, 0 :: int), (pid_B, 1), (pid_C, 2)] = nat (length_map sample_map) \<and>
        (\<forall>i < length [(pid_A, 0 :: int), (pid_B, 1), (pid_C, 2)].
           PidToIntMap_get_record swh_identifiers sample_map (int i) =
             Inr ([(pid_A, 0), (pid_B, 1), (pid_C, 2)] ! i))" by blast
  then have "length [(pid_A, 0 :: int), (pid_B, 1), (pid_C, 2)] = nat (length_map sample_map)"
    and "PidToIntMap_get_record swh_identifiers sample_map (int 1) =
             Inr ([(pid_A, 0), (pid_B, 1), (pid_C, 2)] ! 1)" by auto
  with 1 show ?thesis by simp
qed

text \<open>
  C10 as stated fails: a forward index just created with one record is filled with
  zero bytes; its length is 1, and its iterator yields nothing and raises
  \<open>ValueError\<close>, the type byte 0 being no value of \<open>PidType\<close>.
\<close>

theorem C10_counterexample:
  "PidToIntMap_init None ''wb'' (Some 1) = Inr fresh_map \<and> length_map fresh_map = 1 \<and>
   PidToIntMap_iter swh_identifiers fresh_map = ([], Some ValueError)"
proof -
  have 1: "PidToIntMap_init None ''wb'' (Some 1) = Inr fresh_map" by code_simp
  have 2: "PidToIntMap_iter swh_identifiers fresh_map = ([], Some ValueError)" by code_simp
  show ?thesis using 1 2 by (simp add: fresh_map_def)
qed

text \<open>
  C3 (forward-index update frame and atomicity): on an open forward index,
  \<open>__setitem__\<close> fails exactly as \<open>_find\<close> does, and a key that is in no record
  gives \<open>KeyError\<close>; whenever it raises, the mapping is left as it was, so no
  record is ever inserted; when it returns, the key is the one of the record at the
  position found, the mapping keeps its length, every byte outside the 8 value
  bytes of that record is the same as before, and that record holds the same key
  with the new integer.
\<close>

theorem C3_update_frame:
  assumes "OnDiskMap_inv PidToIntMap_RECORD_SIZE m"
  shows "(PidToIntMap_find L m x = Inl e \<longrightarrow> PidToIntMap_setitem L m x n = (Some e, m)) \<and>
         (str_to_bytes L x = Inr k \<and>
            (\<forall>j. 0 \<le> j \<and> j < length_map m \<longrightarrow> fst (PidToIntMap_get_bin_record m j) \<noteq> k) \<longrightarrow>
            PidToIntMap_setitem L m x n = (Some KeyError, m)) \<and>
         (PidToIntMap_setitem L m x n = (Some e, m') \<longrightarrow> m' = m) \<and>
         (PidToIntMap_setitem L m x n = (None, m') \<longrightarrow>
            (\<exists>old pos v. PidToIntMap_find L m x = Inr (old, pos) \<and> pack_q n = Inr v \<and>
               0 \<le> pos \<and> pos < length_map m \<and>
               str_to_bytes L x = Inr (fst (PidToIntMap_get_bin_record m pos)) \<and>
               length (mm m') = length (mm m) \<and>
               (\<forall>i < length (mm m). i < nat (30 * pos) + 22 \<or> nat (30 * pos) + 30 \<le> i \<longrightarrow>
                  mm m' ! i = mm m ! i) \<and>
               PidToIntMap_get_bin_record m' pos = (fst (PidToIntMap_get_bin_record m pos), v)))"
proof (intro conjI impI)
  assume "PidToIntMap_find L m x = Inl e"
  then show "PidToIntMap_setitem L m x n = (Some e, m)"
    by (simp add: PidToIntMap_setitem_def)
next
  assume a: "str_to_bytes L x = Inr k \<and>
            (\<forall>j. 0 \<le> j \<and> j < length_map m \<longrightarrow> fst (PidToIntMap_get_bin_record m j) \<noteq> k)"
  then have "find_loop m k 0 (length_map m - 1) = Inl KeyError"
    by (intro find_loop_absent) auto
  with a show "PidToIntMap_setitem L m x n = (Some KeyError, m)"
    by (simp add: PidToIntMap_setitem_def PidToIntMap_find_def)
next
  assume s: "PidToIntMap_setitem L m x n = (Some e, m')"
  show "m' = m"
  proof (cases "PidToIntMap_find L m x")
    case (Inl e')
    then show ?thesis using s by (simp add: PidToIntMap_setitem_def)
  next
    case (Inr r)
    obtain old pos where "r = (old, pos)" by (cases r)
    with Inr setitem_found [OF assms, of L x old pos n] s show ?thesis
      by (auto split: sum.splits)
  qed
next
  assume s: "PidToIntMap_setitem L m x n = (None, m')"
  then obtain old pos where f: "PidToIntMap_find L m x = Inr (old, pos)"
    by (cases "PidToIntMap_find L m x") (auto simp: PidToIntMap_setitem_def)
  note sf = setitem_found [OF assms f, of n]
  with s obtain v where v: "pack_q n = Inr v"
    and m': "m' = m\<lparr>mm := take (nat (30 * pos) + 22) (mm m) @ v @
                                        drop (nat (30 * pos) + 30) (mm m)\<rparr>"
    by (auto split: sum.splits)
  have lv: "length v = 8" using v by (rule pack_q_length)
  have la: "nat (30 * pos) + 30 \<le> length (mm m)" using sf by simp
  have pos: "0 \<le> pos" "pos < length_map m" using sf by simp_all
  have len: "length (mm m') = length (mm m)" using la lv by (simp add: m')
  have fr: "\<forall>i < length (mm m). i < nat (30 * pos) + 22 \<or> nat (30 * pos) + 30 \<le> i \<longrightarrow>
                  mm m' ! i = mm m ! i"
    using frame_nth [OF lv la] by (simp add: m')
  have "int (nat (30 * pos)) = 30 * pos" using pos by simp
  then have "30 * pos + 30 \<le> int (length (mm m))" using la by linarith
  then have le0: "(pos + 1) * 30 \<le> int (length (mm m))" by (simp add: algebra_simps)
  then have le: "(pos + 1) * 30 \<le> int (length (mm m'))" using len by simp
  have g: "PidToIntMap_get_bin_record m pos =
      (take 22 (drop (nat (30 * pos)) (mm m)), take 8 (drop (nat (30 * pos) + 22) (mm m)))"
    by (rule fwd_record_slices [OF pos(1) le0 refl])
  have g': "PidToIntMap_get_bin_record m' pos =
      (take 22 (drop (nat (30 * pos)) (mm m')), take 8 (drop (nat (30 * pos) + 22) (mm m')))"
    by (rule fwd_record_slices [OF pos(1) le refl])
  have 1: "take 22 (drop (nat (30 * pos)) (mm m')) = take 22 (drop (nat (30 * pos)) (mm m))"
    using la lv by (simp add: m' min_def drop_take)
  have 2: "take 8 (drop (nat (30 * pos) + 22) (mm m')) = v"
    using la lv by (simp add: m' min_def)
  have rec: "PidToIntMap_get_bin_record m' pos = (fst (PidToIntMap_get_bin_record m pos), v)"
    using g g' 1 2 by simp
  show "\<exists>old pos v. PidToIntMap_find L m x = Inr (old, pos) \<and> pack_q n = Inr v \<and>
               0 \<le> pos \<and> pos < length_map m \<and>
               str_to_bytes L x = Inr (fst (PidToIntMap_get_bin_record m pos)) \<and>
               length (mm m') = length (mm m) \<and>
               (\<forall>i < length (mm m). i < nat (30 * pos) + 22 \<or> nat (30 * pos) + 30 \<le> i \<longrightarrow>
                  mm m' ! i = mm m ! i) \<and>
               PidToIntMap_get_bin_record m' pos = (fst (PidToIntMap_get_bin_record m pos), v)"
    using f v pos sf len fr rec by blast
qed

theorem C3_update_frame_witness:
  "OnDiskMap_inv PidToIntMap_RECORD_SIZE sample_map \<and>
   PidToIntMap_setitem swh_identifiers sample_map pid_D 7 = (Some KeyError, sample_map) \<and>
   PidToIntMap_setitem swh_identifiers sample_map pid_B 7 = (None, updated_map) \<and>
   length (mm updated_map) = length (mm sample_map) \<and>
   mm updated_map ! 60 = mm sample_map ! 60 \<and>
   PidToIntMap_get_bin_record updated_map 1 = (key_B, [0, 0, 0, 0, 0, 0, 0, 7])"
proof -
  have i: "OnDiskMap_inv PidToIntMap_RECORD_SIZE sample_map" by code_simp
  have d: "str_to_bytes swh_identifiers pid_D = Inr key_D" by code_simp
  have a: "\<forall>j. 0 \<le> j \<and> j < length_map sample_map \<longrightarrow>
             fst (PidToIntMap_get_bin_record sample_map j) \<noteq> key_D"
  proof (intro allI impI)
    fix j :: int assume "0 \<le> j \<and> j < length_map sample_map"
    then have "j = 0 \<or> j = 1 \<or> j = 2" by (auto simp: sample_map_def)
    moreover have "fst (PidToIntMap_get_bin_record sample_map 0) \<noteq> key_D" by code_simp
    moreover have "fst (PidToIntMap_get_bin_record sample_map 1) \<noteq> key_D" by code_simp
    moreover have "fst (PidToIntMap_get_bin_record sample_map 2) \<noteq> key_D" by code_simp
    ultimately show "fst (PidToIntMap_get_bin_record sample_map j) \<noteq> key_D" by blast
  qed
  have s: "PidToIntMap_setitem swh_identifiers sample_map pid_B 7 = (None, updated_map)"
    by code_simp
  have f: "PidToIntMap_find swh_identifiers sample_map pid_B = Inr (1, 1)" by code_simp
  have p: "pack_q 7 = Inr [0, 0, 0, 0, 0, 0, 0, 7]" by code_simp
  have kb: "fst (PidToIntMap_get_bin_record sample_map 1) = key_B" by code_simp
  from C3_update_frame [OF i, where L = swh_identifiers and x = pid_D and k = key_D and n = 7]
    d a
  have 1: "PidToIntMap_setitem swh_identifiers sample_map pid_D 7 = (Some KeyError, sample_map)"
    by blast
  from C3_update_frame [OF i, where L = swh_identifiers and x = pid_B and n = 7
      and m' = updated_map] s
  obtain old pos v where "PidToIntMap_find swh_identifiers sample_map pid_B = Inr (old, pos)"
    and "pack_q 7 = Inr v" and l: "length (mm updated_map) = length (mm sample_map)"
    and fr: "\<forall>i < length (mm sample_map). i < nat (30 * pos) + 22 \<or> nat (30 * pos) + 30 \<le> i \<longrightarrow>
               mm updated_map ! i = mm sample_map ! i"
    and "PidToIntMap_get_bin_record updated_map pos =
           (fst (PidToIntMap_get_bin_record sample_map pos), v)"
    by blast
  with f p kb have pos: "pos = 1"
    and 2: "PidToIntMap_get_bin_record updated_map 1 = (key_B, [0, 0, 0, 0, 0, 0, 0, 7])"
    by simp_all
  have "length (mm sample_map) = 90" by code_simp
  with fr pos have 3: "mm updated_map ! 60 = mm sample_map ! 60" by simp
  show ?thesis using i 1 s l 2 3 by blast
qed



text \<open>
  C4 (negative addressing of the reverse index): on a map of length \<open>L > 0\<close>,
  \<open>get(L-1) = get(-1)\<close>, \<open>get(0) = get(-L)\<close> and \<open>get(-(L+1))\<close> raises \<open>IndexError\<close>.
  Every negative position \<open>n \<ge> -L\<close> is translated: \<open>get(n) = get(L + n)\<close>. At a
  position \<open>p\<close> in \<open>[0, L)\<close>, \<open>get\<close> is the decoding of the record at \<open>p\<close>, the 22
  bytes of the mapping from \<open>22 * p\<close> on. Whenever the translated position is
  outside \<open>[0, L)\<close>, \<open>get\<close> raises \<open>IndexError\<close>; and with an identifier library that
  raises no \<open>IndexError\<close>, it raises \<open>IndexError\<close> exactly then.
\<close>

theorem C4_negative_addressing:
  assumes "0 < length_map m"
  shows "IntToPidMap_getitem L m (length_map m - 1) = IntToPidMap_getitem L m (- 1) \<and>
         IntToPidMap_getitem L m 0 = IntToPidMap_getitem L m (- length_map m) \<and>
         IntToPidMap_getitem L m (- (length_map m + 1)) = Inl IndexError \<and>
         (\<forall>n. - length_map m \<le> n \<and> n < 0 \<longrightarrow>
            IntToPidMap_getitem L m n = IntToPidMap_getitem L m (length_map m + n)) \<and>
         (\<forall>p. 0 \<le> p \<and> p < length_map m \<longrightarrow>
            IntToPidMap_getitem L m p = bytes_to_str L (IntToPidMap_get_bin_record m p)) \<and>
         (OnDiskMap_inv IntToPidMap_RECORD_SIZE m \<longrightarrow>
            (\<forall>p. 0 \<le> p \<and> p < length_map m \<longrightarrow>
               IntToPidMap_get_bin_record m p = take 22 (drop (nat (22 * p)) (mm m)))) \<and>
         (\<forall>pos. \<not> (0 \<le> (if pos < 0 then length_map m + pos else pos) \<and>
                   (if pos < 0 then length_map m + pos else pos) < length_map m) \<longrightarrow>
            IntToPidMap_getitem L m pos = Inl IndexError) \<and>
         ((\<forall>t d. PersistentId_str L t d \<noteq> Inl IndexError) \<longrightarrow>
          (\<forall>pos. IntToPidMap_getitem L m pos = Inl IndexError \<longleftrightarrow>
            \<not> (0 \<le> (if pos < 0 then length_map m + pos else pos) \<and>
               (if pos < 0 then length_map m + pos else pos) < length_map m)))"
proof (intro conjI allI impI)
  show "IntToPidMap_getitem L m (length_map m - 1) = IntToPidMap_getitem L m (- 1)"
    using assms by (simp add: IntToPidMap_getitem_def OnDiskMap_len_def Let_def)
  show "IntToPidMap_getitem L m 0 = IntToPidMap_getitem L m (- length_map m)"
    using assms by (simp add: IntToPidMap_getitem_def OnDiskMap_len_def Let_def)
  show "IntToPidMap_getitem L m (- (length_map m + 1)) = Inl IndexError"
    using assms by (simp add: IntToPidMap_getitem_def OnDiskMap_len_def Let_def)
next
  fix n assume "- length_map m \<le> n \<and> n < 0"
  then show "IntToPidMap_getitem L m n = IntToPidMap_getitem L m (length_map m + n)"
    by (simp add: IntToPidMap_getitem_def OnDiskMap_len_def Let_def)
next
  fix p assume "0 \<le> p \<and> p < length_map m"
  then show "IntToPidMap_getitem L m p = bytes_to_str L (IntToPidMap_get_bin_record m p)"
    by (simp add: IntToPidMap_getitem_def OnDiskMap_len_def Let_def)
next
  fix p assume "OnDiskMap_inv IntToPidMap_RECORD_SIZE m" "0 \<le> p \<and> p < length_map m"
  then show "IntToPidMap_get_bin_record m p = take 22 (drop (nat (22 * p)) (mm m))"
    by (intro rev_record_slice) simp_all
next
  fix pos
  assume "\<not> (0 \<le> (if pos < 0 then length_map m + pos else pos) \<and>
               (if pos < 0 then length_map m + pos else pos) < length_map m)"
  then show "IntToPidMap_getitem L m pos = Inl IndexError"
    by (auto simp: IntToPidMap_getitem_def OnDiskMap_len_def Let_def split: if_splits)
next
  fix pos
  assume "\<forall>t d. PersistentId_str L t d \<noteq> Inl IndexError"
  from bytes_to_str_not_IndexError [OF this]
  have "\<And>bs. bytes_to_str L bs \<noteq> Inl IndexError" .
  then show "IntToPidMap_getitem L m pos = Inl IndexError \<longleftrightarrow>
            \<not> (0 \<le> (if pos < 0 then length_map m + pos else pos) \<and>
               (if pos < 0 then length_map m + pos else pos) < length_map m)"
    by (simp add: IntToPidMap_getitem_def OnDiskMap_len_def Let_def)
qed

theorem C4_negative_addressing_witness:
  "IntToPidMap_getitem swh_identifiers rev_map 2 = Inr pid_C \<and>
   IntToPidMap_getitem swh_identifiers rev_map (- 1) = Inr pid_C \<and>
   IntToPidMap_getitem swh_identifiers rev_map 1 = Inr pid_B \<and>
   IntToPidMap_getitem swh_identifiers rev_map (- 2) = Inr pid_B \<and>
   IntToPidMap_getitem swh_identifiers rev_map 0 = Inr pid_A \<and>
   IntToPidMap_getitem swh_identifiers rev_map (- 3) = Inr pid_A \<and>
   IntToPidMap_getitem swh_identifiers rev_map (- 4) = Inl IndexError \<and>
   IntToPidMap_getitem swh_identifiers rev_map 3 = Inl IndexError \<and>
   IntToPidMap_get_bin_record rev_map 1 = key_B \<and>
   bytes_to_str swh_identifiers key_B = Inr pid_B"
proof -
  have 0: "0 < length_map rev_map" by (simp add: rev_map_def)
  have l: "length_map rev_map = 3" by (simp add: rev_map_def)
  have i: "OnDiskMap_inv IntToPidMap_RECORD_SIZE rev_map" by code_simp
  have b: "take 22 (drop (nat (22 * 1)) (mm rev_map)) = key_B" by code_simp
  have d: "bytes_to_str swh_identifiers key_B = Inr pid_B" by code_simp
  have g0: "IntToPidMap_getitem swh_identifiers rev_map 0 = Inr pid_A" by code_simp
  have g2: "IntToPidMap_getitem swh_identifiers rev_map 2 = Inr pid_C" by code_simp
  have n: "\<forall>t d. PersistentId_str swh_identifiers t d \<noteq> Inl IndexError"
    by (simp add: swh_identifiers_def swh_str_def split: option.splits)
  note t = C4_negative_addressing [OF 0, of swh_identifiers]
  note t1 = t [THEN conjunct1]
  note t2 = t [THEN conjunct2, THEN conjunct1]
  note t3 = t [THEN conjunct2, THEN conjunct2, THEN conjunct1]
  note t4 = t [THEN conjunct2, THEN conjunct2, THEN conjunct2, THEN conjunct1, rule_format]
  note t5 = t [THEN conjunct2, THEN conjunct2, THEN conjunct2, THEN conjunct2, THEN conjunct1,
      rule_format]
  note t6 = t [THEN conjunct2, THEN conjunct2, THEN conjunct2, THEN conjunct2, THEN conjunct2,
      THEN conjunct1, rule_format]
  note t7 = t [THEN conjunct2, THEN conjunct2, THEN conjunct2, THEN conjunct2, THEN conjunct2,
      THEN conjunct2, THEN conjunct1, rule_format]
  note t8 = t [THEN conjunct2, THEN conjunct2, THEN conjunct2, THEN conjunct2, THEN conjunct2,
      THEN conjunct2, THEN conjunct2, rule_format]
  from t1 g2 have m1: "IntToPidMap_getitem swh_identifiers rev_map (- 1) = Inr pid_C"
    by (simp add: l)
  from t2 g0 have m3: "IntToPidMap_getitem swh_identifiers rev_map (- 3) = Inr pid_A"
    by (simp add: l)
  from t3 have m4: "IntToPidMap_getitem swh_identifiers rev_map (- 4) = Inl IndexError"
    by (simp add: l)
  from t6 [OF i, of 1] b have r: "IntToPidMap_get_bin_record rev_map 1 = key_B"
    by (simp add: l)
  from t5 [of 1] r d have g1: "IntToPidMap_getitem swh_identifiers rev_map 1 = Inr pid_B"
    by (simp add: l)
  from t4 [of "- 2"] g1 have m2: "IntToPidMap_getitem swh_identifiers rev_map (- 2) = Inr pid_B"
    by (simp add: l)
  from t7 [of 3] have g3: "IntToPidMap_getitem swh_identifiers rev_map 3 = Inl IndexError"
    by (simp add: l)
  from t8 [OF n [rule_format], of 3] g3 have "\<not> (0 \<le> (3::int) \<and> (3::int) < length_map rev_map)"
    by simp
  show ?thesis using g2 m1 g1 m2 g0 m3 m4 g3 r d by blast
qed

text \<open>
  C6 (binary-search memory discipline), as amended: every step of the search takes
  both slices of the middle record from the mapping, the 22 key bytes and the 8
  value bytes, compares the key only, and decodes the value only where the key is
  the target. So, for two mappings whose records have the same keys over the
  searched range and the same value bytes wherever the key is the target, the search
  reads the same slices, probes the same positions and has the same outcome; and an
  integer it returns is the decoded value of a record whose key is the target.
\<close>

theorem C6_search_reads:
  assumes "\<forall>p. lo \<le> p \<and> p \<le> hi \<longrightarrow>
             fst (PidToIntMap_get_bin_record m1 p) = fst (PidToIntMap_get_bin_record m2 p)"
    and "\<forall>p. lo \<le> p \<and> p \<le> hi \<and> fst (PidToIntMap_get_bin_record m1 p) = t \<longrightarrow>
             snd (PidToIntMap_get_bin_record m1 p) = snd (PidToIntMap_get_bin_record m2 p)"
  shows "snd (find_traced m1 t lo hi) =
           concat (map (\<lambda>p. [(p * 30, p * 30 + 22), (p * 30 + 22, p * 30 + 30)])
                       (find_probes m1 t lo hi)) \<and>
         fst (find_traced m1 t lo hi) = find_loop m1 t lo hi \<and>
         find_traced m1 t lo hi = find_traced m2 t lo hi \<and>
         find_probes m1 t lo hi = find_probes m2 t lo hi \<and>
         find_loop m1 t lo hi = find_loop m2 t lo hi \<and>
         (\<forall>v p. find_loop m1 t lo hi = Inr (v, p) \<longrightarrow>
            fst (PidToIntMap_get_bin_record m1 p) = t \<and>
            unpack_q (snd (PidToIntMap_get_bin_record m1 p)) = Inr v)"
proof -
  from find_same [OF assms]
  have s: "find_probes m1 t lo hi = find_probes m2 t lo hi"
    "find_loop m1 t lo hi = find_loop m2 t lo hi" by simp_all
  then have "find_traced m1 t lo hi = find_traced m2 t lo hi"
    by (simp add: find_traced_spec)
  then show ?thesis using s find_loop_Inr [of m1 t lo hi] by (auto simp: find_traced_spec)
qed

theorem C6_search_reads_witness:
  "find_traced sample_map key_C 0 2 = find_traced updated_map key_C 0 2 \<and>
   find_probes sample_map key_C 0 2 = find_probes updated_map key_C 0 2 \<and>
   find_loop sample_map key_C 0 2 = find_loop updated_map key_C 0 2 \<and>
   find_loop sample_map key_C 0 2 = Inr (2, 2) \<and>
   unpack_q (snd (PidToIntMap_get_bin_record sample_map 2)) = Inr 2 \<and>
   snd (PidToIntMap_get_bin_record sample_map 1) \<noteq>
     snd (PidToIntMap_get_bin_record updated_map 1)"
proof -
  have k0: "fst (PidToIntMap_get_bin_record sample_map 0) =
            fst (PidToIntMap_get_bin_record updated_map 0)" by code_simp
  have k1: "fst (PidToIntMap_get_bin_record sample_map 1) =
            fst (PidToIntMap_get_bin_record updated_map 1)" by code_simp
  have k2: "fst (PidToIntMap_get_bin_record sample_map 2) =
            fst (PidToIntMap_get_bin_record updated_map 2)" by code_simp
  have v0: "snd (PidToIntMap_get_bin_record sample_map 0) =
            snd (PidToIntMap_get_bin_record updated_map 0)" by code_simp
  have n1: "fst (PidToIntMap_get_bin_record sample_map 1) \<noteq> key_C" by code_simp
  have v2: "snd (PidToIntMap_get_bin_record sample_map 2) =
            snd (PidToIntMap_get_bin_record updated_map 2)" by code_simp
  have d: "snd (PidToIntMap_get_bin_record sample_map 1) \<noteq>
           snd (PidToIntMap_get_bin_record updated_map 1)" by code_simp
  have r: "find_loop sample_map key_C 0 2 = Inr (2, 2)" by code_simp
  have c: "\<And>p :: int. 0 \<le> p \<and> p \<le> 2 \<Longrightarrow> p = 0 \<or> p = 1 \<or> p = 2" by auto
  have h1: "\<forall>p. 0 \<le> p \<and> p \<le> 2 \<longrightarrow>
             fst (PidToIntMap_get_bin_record sample_map p) =
             fst (PidToIntMap_get_bin_record updated_map p)"
    using c k0 k1 k2 by blast
  have h2: "\<forall>p. 0 \<le> p \<and> p \<le> 2 \<and> fst (PidToIntMap_get_bin_record sample_map p) = key_C \<longrightarrow>
             snd (PidToIntMap_get_bin_record sample_map p) =
             snd (PidToIntMap_get_bin_record updated_map p)"
    using c v0 n1 v2 by blast
  from C6_search_reads [OF h1 h2] r d show ?thesis by blast
qed

text \<open>
  C6 as stated fails: searching the key of the third record of the sample file, the
  first probe is at position 1, whose key is not the target, and the search reads
  the value bytes of that record, the slice from 52 to 60, before it moves on.
\<close>

theorem C6_counterexample:
  "find_traced sample_map key_C 0 (length_map sample_map - 1) =
     (Inr (2, 2), [(30, 52), (52, 60), (60, 82), (82, 90)]) \<and>
   fst (PidToIntMap_get_bin_record sample_map 1) \<noteq> key_C \<and>
   PidToIntMap_get_bin_record_traced sample_map 1 =
     ((key_B, [0, 0, 0, 0, 0, 0, 0, 1]), [(30, 52), (52, 60)]) \<and>
   mm_read sample_map 52 60 = ([0, 0, 0, 0, 0, 0, 0, 1], [(52, 60)])"
proof -
  have 1: "find_traced sample_map key_C 0 (length_map sample_map - 1) =
     (Inr (2, 2), [(30, 52), (52, 60), (60, 82), (82, 90)])" by code_simp
  have 2: "fst (PidToIntMap_get_bin_record sample_map 1) \<noteq> key_C" by code_simp
  have 3: "PidToIntMap_get_bin_record_traced sample_map 1 =
     ((key_B, [0, 0, 0, 0, 0, 0, 0, 1]), [(30, 52), (52, 60)])" by code_simp
  have 4: "mm_read sample_map 52 60 = ([0, 0, 0, 0, 0, 0, 0, 1], [(52, 60)])" by code_simp
  show ?thesis using 1 2 3 4 by blast
qed

end
